theory Spec2Isabelle
  imports Complex_Main "HOL-Library.Word" "HOL-Library.Sublist" "HOL-Library.Log_Nat"
begin

section \<open>Strings\<close>

text \<open>
  A JavaScript string is a sequence of UTF-16 code units. Literals of the source are
  written with \<open>js\<close>, which reads an ASCII string as code units.
\<close>

type_synonym code_unit = "16 word"
type_synonym jsstring = "code_unit list"

definition cu :: "char \<Rightarrow> code_unit" where
  "cu c = of_char c"

definition js :: "string \<Rightarrow> jsstring" where
  "js s = map cu s"

text \<open>
  The characters matched by \<open>\s\<close> in a regular expression and removed by
  \<open>String.prototype.trim\<close>: WhiteSpace and LineTerminator of ECMA-262.
\<close>

definition is_js_space :: "code_unit \<Rightarrow> bool" where
  "is_js_space c \<longleftrightarrow>
     c = 0x09 \<or> c = 0x0A \<or> c = 0x0B \<or> c = 0x0C \<or> c = 0x0D \<or> c = 0x20 \<or> c = 0xA0 \<or>
     c = 0x1680 \<or> (0x2000 \<le> c \<and> c \<le> 0x200A) \<or> c = 0x2028 \<or> c = 0x2029 \<or>
     c = 0x202F \<or> c = 0x205F \<or> c = 0x3000 \<or> c = 0xFEFF"

definition trim :: "jsstring \<Rightarrow> jsstring" where
  "trim s = rev (dropWhile is_js_space (rev (dropWhile is_js_space s)))"

text \<open>
  \<open>text.replace(/p/g, r)\<close> for a pattern \<open>p\<close> that is a literal, non-empty string
  and a replacement without \<open>$\<close>: scanning from the left, every match is replaced
  and the scan goes on behind it.
\<close>

function replace_all :: "jsstring \<Rightarrow> jsstring \<Rightarrow> jsstring \<Rightarrow> jsstring" where
  "replace_all p r [] = []"
| "replace_all p r (c # cs) =
     (if p \<noteq> [] \<and> prefix p (c # cs) then r @ replace_all p r (drop (length p) (c # cs))
      else c # replace_all p r cs)"
  by pat_completeness auto
termination
  by (relation "measure (\<lambda>(p, r, s). length s)") (auto simp: Suc_le_eq)

section \<open>extractJSON\<close>

datatype js_error = Error string | SyntaxError | TypeError

text \<open>
  \<open>cleaned.match(/\{[\s\S]*\}/)\<close>. \<open>greedy_to_close\<close> is \<open>[\s\S]*\}\<close> at a
  position: the star first takes the next code unit and the rest is tried; when that
  fails, the star stops here and the closing brace must stand at this place.
  \<open>match_object\<close> tries the start positions from the left.
\<close>

fun greedy_to_close :: "jsstring \<Rightarrow> jsstring option" where
  "greedy_to_close [] = None"
| "greedy_to_close (c # cs) =
     (case greedy_to_close cs of
        Some m \<Rightarrow> Some (c # m)
      | None \<Rightarrow> if c = cu CHR ''}'' then Some [c] else None)"

fun match_object :: "jsstring \<Rightarrow> jsstring option" where
  "match_object [] = None"
| "match_object (c # cs) =
     (if c = cu CHR ''{'' then
        (case greedy_to_close cs of
           Some m \<Rightarrow> Some (c # m)
         | None \<Rightarrow> match_object cs)
      else match_object cs)"

definition cleaned :: "jsstring \<Rightarrow> jsstring" where
  "cleaned text = trim (replace_all (js ''```'') [] (replace_all (js ''```json'') [] text))"

definition extractJSON :: "jsstring \<Rightarrow> js_error + jsstring" where
  "extractJSON text =
     (case match_object (cleaned text) of
        None \<Rightarrow> Inl (Error ''No JSON found'')
      | Some m \<Rightarrow> Inr m)"

section \<open>Numbers\<close>

text \<open>
  A JavaScript number is an IEEE 754 double: a finite value, \<open>NaN\<close> or an infinity.
  A finite double is written as the rational number it stands for. The two zeros are
  one: \<open>||\<close> takes both for false, a sum that starts at \<open>0\<close> is never the negative zero,
  and \<open>res.json\<close> writes both as \<open>0\<close>.
\<close>

datatype jsnum = Fin rat | NaN | PosInf | NegInf

text \<open>
  The doubles are the numbers \<open>m * 2 ^ q\<close> with a mantissa \<open>m\<close> below \<open>2 ^ 53\<close> and
  \<open>q\<close> from \<open>-1074\<close> to \<open>971\<close>. \<open>to_double\<close> rounds a rational number to the nearest
  double, a tie to the even mantissa, and a number whose rounding reaches \<open>2 ^ 1024\<close>
  to an infinity. \<open>binade p d\<close> is the exponent \<open>e\<close> with \<open>2 ^ e \<le> p / d < 2 ^ (e + 1)\<close>,
  and \<open>rne_div n d\<close> is \<open>n / d\<close> rounded to the nearest integer, a tie to the even one.
\<close>

definition pow2 :: "int \<Rightarrow> rat" where
  "pow2 k = (if 0 \<le> k then of_int (2 ^ nat k) else 1 / of_int (2 ^ nat (- k)))"

definition rne_div :: "int \<Rightarrow> int \<Rightarrow> int" where
  "rne_div n d =
     (let k = n div d; r = n mod d
      in if 2 * r < d then k else if d < 2 * r then k + 1 else if even k then k else k + 1)"

definition binade :: "int \<Rightarrow> int \<Rightarrow> int" where
  "binade p d =
     (let e = bitlen p - bitlen d
      in if (if 0 \<le> e then d * 2 ^ nat e \<le> p else d \<le> p * 2 ^ nat (- e)) then e else e - 1)"

definition to_double :: "rat \<Rightarrow> jsnum" where
  "to_double x =
     (if x = 0 then Fin 0
      else
        let p = fst (quotient_of \<bar>x\<bar>);
            d = snd (quotient_of \<bar>x\<bar>);
            q = max (binade p d - 52) (- 1074);
            m = (if 0 \<le> q then rne_div p (d * 2 ^ nat q) else rne_div (p * 2 ^ nat (- q)) d)
        in if 971 < q \<or> (q = 971 \<and> 2 ^ 53 \<le> m) then (if 0 < x then PosInf else NegInf)
           else Fin (if 0 < x then of_int m * pow2 q else - (of_int m * pow2 q)))"

text \<open>The sum of two numbers: the exact sum of two finite doubles, rounded to a double.\<close>

fun js_add :: "jsnum \<Rightarrow> jsnum \<Rightarrow> jsnum" where
  "js_add (Fin a) (Fin b) = to_double (a + b)"
| "js_add NaN _ = NaN"
| "js_add _ NaN = NaN"
| "js_add PosInf NegInf = NaN"
| "js_add NegInf PosInf = NaN"
| "js_add PosInf _ = PosInf"
| "js_add _ PosInf = PosInf"
| "js_add NegInf _ = NegInf"
| "js_add _ NegInf = NegInf"

fun js_neg :: "jsnum \<Rightarrow> jsnum" where
  "js_neg (Fin a) = Fin (- a)"
| "js_neg NaN = NaN"
| "js_neg PosInf = NegInf"
| "js_neg NegInf = PosInf"

text \<open>
  \<open>Math.round\<close>: the integer closest to the argument, and of two equally close ones
  the one towards plus infinity. The result is exact: a double below \<open>2 ^ 52\<close> in size
  rounds to an integer below \<open>2 ^ 53\<close>, and a larger double is an integer itself.
\<close>

fun Math_round :: "jsnum \<Rightarrow> jsnum" where
  "Math_round (Fin x) = Fin (of_int \<lfloor>x + 1 / 2\<rfloor>)"
| "Math_round n = n"

section \<open>JSON values and \<open>JSON.parse\<close>\<close>

text \<open>
  \<open>JSON.parse\<close> is a built-in of the language; it is modelled after the JSON lexical
  and syntactic grammars of ECMA-262. Its values: an object is the list of its own
  properties in the order of their creation, every name once; the order in which the
  engine lists them (names that are array indices first) plays no part here. A number
  is the double nearest to the value of its literal, an infinity for a literal too large.
\<close>

datatype json =
    JNull
  | JBool bool
  | JNum jsnum
  | JStr jsstring
  | JArr "json list"
  | JObj "(jsstring \<times> json) list"

datatype token =
    TLBrace | TRBrace | TLBracket | TRBracket | TColon | TComma
  | TString jsstring | TNumber rat | TTrue | TFalse | TNull

definition is_json_ws :: "code_unit \<Rightarrow> bool" where
  "is_json_ws c \<longleftrightarrow> c = 0x09 \<or> c = 0x0A \<or> c = 0x0D \<or> c = 0x20"

definition is_digit :: "code_unit \<Rightarrow> bool" where
  "is_digit c \<longleftrightarrow> 0x30 \<le> c \<and> c \<le> 0x39"

definition digit_val :: "code_unit \<Rightarrow> nat" where
  "digit_val c = unat c - 48"

definition digits_val :: "jsstring \<Rightarrow> nat" where
  "digits_val ds = foldl (\<lambda>a d. 10 * a + digit_val d) 0 ds"

definition hex_val :: "code_unit \<Rightarrow> nat option" where
  "hex_val c =
     (if 0x30 \<le> c \<and> c \<le> 0x39 then Some (unat c - 48)
      else if 0x41 \<le> c \<and> c \<le> 0x46 then Some (unat c - 55)
      else if 0x61 \<le> c \<and> c \<le> 0x66 then Some (unat c - 87)
      else None)"

definition hex4 :: "code_unit \<Rightarrow> code_unit \<Rightarrow> code_unit \<Rightarrow> code_unit \<Rightarrow> code_unit option" where
  "hex4 h1 h2 h3 h4 =
     (case hex_val h1 of None \<Rightarrow> None | Some a \<Rightarrow>
      case hex_val h2 of None \<Rightarrow> None | Some b \<Rightarrow>
      case hex_val h3 of None \<Rightarrow> None | Some c \<Rightarrow>
      case hex_val h4 of None \<Rightarrow> None | Some d \<Rightarrow>
        Some (of_nat (((a * 16 + b) * 16 + c) * 16 + d)))"

text \<open>The one-character escapes of a JSON string: the character behind the backslash.\<close>

definition unescape :: "code_unit \<Rightarrow> code_unit option" where
  "unescape e =
     (if e = cu CHR 0x22 then Some (cu CHR 0x22)
      else if e = cu CHR 0x5C then Some (cu CHR 0x5C)
      else if e = cu CHR ''/'' then Some (cu CHR ''/'')
      else if e = cu CHR ''b'' then Some 0x08
      else if e = cu CHR ''f'' then Some 0x0C
      else if e = cu CHR ''n'' then Some 0x0A
      else if e = cu CHR ''r'' then Some 0x0D
      else if e = cu CHR ''t'' then Some 0x09
      else None)"

definition consing :: "'a \<Rightarrow> ('a list \<times> 'b) option \<Rightarrow> ('a list \<times> 'b) option" where
  "consing c r = (case r of None \<Rightarrow> None | Some (s, rest) \<Rightarrow> Some (c # s, rest))"

text \<open>
  A JSON string behind its opening quote: the characters up to the closing quote, and
  the text behind it. Control characters below U+0020 must be escaped.
\<close>

fun lex_string :: "jsstring \<Rightarrow> (jsstring \<times> jsstring) option" where
  "lex_string [] = None"
| "lex_string (c # cs) =
     (if c = cu CHR 0x22 then Some ([], cs)
      else if c = cu CHR 0x5C then
        (case cs of
           [] \<Rightarrow> None
         | e # es \<Rightarrow>
             if e = cu CHR ''u'' then
               (case es of
                  h1 # h2 # h3 # h4 # rest \<Rightarrow>
                    (case hex4 h1 h2 h3 h4 of
                       None \<Rightarrow> None
                     | Some u \<Rightarrow> consing u (lex_string rest))
                | _ \<Rightarrow> None)
             else
               (case unescape e of
                  None \<Rightarrow> None
                | Some d \<Rightarrow> consing d (lex_string es)))
      else if c < 0x20 then None
      else consing c (lex_string cs))"

text \<open>
  A JSON number: an optional minus, \<open>0\<close> or a digit sequence without leading zero, an
  optional fraction with at least one digit, an optional exponent with at least one
  digit. The result is the value and the text behind the literal.
\<close>

definition lex_exponent :: "jsstring \<Rightarrow> (int \<times> jsstring) option" where
  "lex_exponent s =
     (case s of
        [] \<Rightarrow> Some (0, s)
      | e # es \<Rightarrow>
          if e = cu CHR ''e'' \<or> e = cu CHR ''E'' then
            (let neg = (es \<noteq> [] \<and> hd es = cu CHR ''-'');
                 ds = (if es \<noteq> [] \<and> (hd es = cu CHR ''-'' \<or> hd es = cu CHR ''+'') then tl es else es);
                 n = takeWhile is_digit ds
             in if n = [] then None
                else Some ((if neg then - int (digits_val n) else int (digits_val n)),
                           dropWhile is_digit ds))
          else Some (0, s))"

definition lex_fraction :: "jsstring \<Rightarrow> (rat \<times> jsstring) option" where
  "lex_fraction s =
     (case s of
        [] \<Rightarrow> Some (0, s)
      | d # ds \<Rightarrow>
          if d = cu CHR ''.'' then
            (let n = takeWhile is_digit ds
             in if n = [] then None
                else Some (of_nat (digits_val n) / 10 ^ length n, dropWhile is_digit ds))
          else Some (0, s))"

definition lex_integer :: "jsstring \<Rightarrow> (nat \<times> jsstring) option" where
  "lex_integer s =
     (case s of
        [] \<Rightarrow> None
      | d # ds \<Rightarrow>
          if d = cu CHR ''0'' then Some (0, ds)
          else if is_digit d then Some (digits_val (takeWhile is_digit s), dropWhile is_digit s)
          else None)"

definition scale10 :: "rat \<Rightarrow> int \<Rightarrow> rat" where
  "scale10 x e = (if 0 \<le> e then x * 10 ^ nat e else x / 10 ^ nat (- e))"

definition lex_number :: "jsstring \<Rightarrow> (rat \<times> jsstring) option" where
  "lex_number s =
     (let neg = (s \<noteq> [] \<and> hd s = cu CHR ''-'');
          s1 = (if neg then tl s else s)
      in case lex_integer s1 of None \<Rightarrow> None | Some (i, s2) \<Rightarrow>
         case lex_fraction s2 of None \<Rightarrow> None | Some (f, s3) \<Rightarrow>
         case lex_exponent s3 of None \<Rightarrow> None | Some (e, s4) \<Rightarrow>
           Some (scale10 (if neg then - (of_nat i + f) else of_nat i + f) e, s4))"

lemma consing_length:
  "consing c r = Some (s, rest) \<Longrightarrow> \<exists>s'. r = Some (s', rest)"
  by (auto simp: consing_def split: option.splits)

lemma lex_string_length:
  "lex_string cs = Some (s, rest) \<Longrightarrow> length rest < length cs"
proof (induction "length cs" arbitrary: cs s rule: less_induct)
  case less
  have IH: "length rest < n" if "lex_string y = Some (s', rest)" "length y < length cs" "length y \<le> n"
    for y s' n
    using less.hyps [OF that(2) that(1)] that(3) by simp
  show ?case
  proof (cases cs)
    case Nil
    with less.prems show ?thesis by simp
  next
    case (Cons c cs')
    with less.prems show ?thesis
      by (auto split: if_splits list.splits option.splits dest!: consing_length intro!: IH)
  qed
qed

lemma lex_integer_length:
  "lex_integer s = Some (i, rest) \<Longrightarrow> length rest < length s"
  by (auto simp: lex_integer_def length_dropWhile_le less_Suc_eq_le split: list.splits if_splits)

lemma lex_fraction_length:
  "lex_fraction s = Some (f, rest) \<Longrightarrow> length rest \<le> length s"
  by (auto simp: lex_fraction_def Let_def length_dropWhile_le le_SucI split: list.splits if_splits)

lemma lex_exponent_length:
  "lex_exponent s = Some (e, rest) \<Longrightarrow> length rest \<le> length s"
proof -
  have "length (dropWhile is_digit (tl es)) \<le> length es" for es :: jsstring
    by (rule order_trans [OF length_dropWhile_le]) simp
  then show "lex_exponent s = Some (e, rest) \<Longrightarrow> length rest \<le> length s"
    by (auto simp: lex_exponent_def Let_def length_dropWhile_le le_SucI split: list.splits if_splits)
qed

lemma lex_number_length:
  assumes "lex_number s = Some (x, rest)"
  shows "length rest < length s"
proof -
  define s1 where "s1 = (if s \<noteq> [] \<and> hd s = cu CHR ''-'' then tl s else s)"
  from assms obtain i s2 f s3 e where
    a: "lex_integer s1 = Some (i, s2)" and b: "lex_fraction s2 = Some (f, s3)"
    and c: "lex_exponent s3 = Some (e, rest)"
    by (auto simp: lex_number_def Let_def s1_def split: option.splits)
  have "length s1 \<le> length s" by (simp add: s1_def)
  with lex_integer_length [OF a] lex_fraction_length [OF b] lex_exponent_length [OF c]
  show ?thesis by linarith
qed

text \<open>The tokens of a text, or nothing when some place starts no token.\<close>

definition cons_token :: "token \<Rightarrow> token list option \<Rightarrow> token list option" where
  "cons_token t r = map_option ((#) t) r"

function lex :: "jsstring \<Rightarrow> token list option" where
  "lex [] = Some []"
| "lex (c # cs) =
     (if is_json_ws c then lex cs
      else if c = cu CHR ''{'' then cons_token TLBrace (lex cs)
      else if c = cu CHR ''}'' then cons_token TRBrace (lex cs)
      else if c = cu CHR ''['' then cons_token TLBracket (lex cs)
      else if c = cu CHR '']'' then cons_token TRBracket (lex cs)
      else if c = cu CHR '':'' then cons_token TColon (lex cs)
      else if c = cu CHR '','' then cons_token TComma (lex cs)
      else if c = cu CHR 0x22 then
        (case lex_string cs of
           None \<Rightarrow> None
         | Some (s, rest) \<Rightarrow> cons_token (TString s) (lex rest))
      else if c = cu CHR ''-'' \<or> is_digit c then
        (case lex_number (c # cs) of
           None \<Rightarrow> None
         | Some (x, rest) \<Rightarrow> cons_token (TNumber x) (lex rest))
      else if prefix (js ''true'') (c # cs) then cons_token TTrue (lex (drop 4 (c # cs)))
      else if prefix (js ''false'') (c # cs) then cons_token TFalse (lex (drop 5 (c # cs)))
      else if prefix (js ''null'') (c # cs) then cons_token TNull (lex (drop 4 (c # cs)))
      else None)"
  by pat_completeness auto
termination
proof (relation "measure length", goal_cases)
  case (9 c cs x2 x y)
  then show ?case using lex_string_length [of cs x y] by simp
next
  case (10 c cs x2 x y)
  then show ?case using lex_number_length [of "c # cs" x y] by simp
qed auto

text \<open>
  The syntactic grammar of JSON over the tokens, as an automaton with a stack of the
  arrays and objects that are open. \<open>FArr\<close> holds the elements read so far, the last one
  first; \<open>FObj\<close> the members read so far; \<open>FKey\<close> an object whose next member has its
  name and waits for its value. A member whose name is already there replaces the value
  and keeps the place.
\<close>

datatype frame =
    FArr "json list"
  | FObj "(jsstring \<times> json) list"
  | FKey "(jsstring \<times> json) list" jsstring

datatype pstate =
    SValue      \<comment> \<open>a value must follow\<close>
  | SArrFirst   \<comment> \<open>behind \<open>[\<close>: a value or \<open>]\<close>\<close>
  | SObjFirst   \<comment> \<open>behind \<open>{\<close>: a member name or \<open>}\<close>\<close>
  | SKey        \<comment> \<open>behind a comma in an object: a member name\<close>
  | SColon      \<comment> \<open>behind a member name: the colon\<close>
  | SNext       \<comment> \<open>behind a value in an array or object: a comma or the end of it\<close>
  | SDone json  \<comment> \<open>the text's value is complete\<close>

fun put_member :: "jsstring \<Rightarrow> json \<Rightarrow> (jsstring \<times> json) list \<Rightarrow> (jsstring \<times> json) list" where
  "put_member k v [] = [(k, v)]"
| "put_member k v (p # ps) = (if fst p = k then (k, v) # ps else p # put_member k v ps)"

fun deliver :: "json \<Rightarrow> frame list \<Rightarrow> (pstate \<times> frame list) option" where
  "deliver v [] = Some (SDone v, [])"
| "deliver v (FArr xs # st) = Some (SNext, FArr (v # xs) # st)"
| "deliver v (FKey ms k # st) = Some (SNext, FObj (put_member k v ms) # st)"
| "deliver v (FObj ms # st) = None"

fun start_value :: "token \<Rightarrow> frame list \<Rightarrow> (pstate \<times> frame list) option" where
  "start_value TLBracket st = Some (SArrFirst, FArr [] # st)"
| "start_value TLBrace st = Some (SObjFirst, FObj [] # st)"
| "start_value (TString s) st = deliver (JStr s) st"
| "start_value (TNumber x) st = deliver (JNum (to_double x)) st"
| "start_value TTrue st = deliver (JBool True) st"
| "start_value TFalse st = deliver (JBool False) st"
| "start_value TNull st = deliver JNull st"
| "start_value _ st = None"

fun member_name :: "token \<Rightarrow> frame list \<Rightarrow> (pstate \<times> frame list) option" where
  "member_name (TString k) (FObj ms # st) = Some (SColon, FKey ms k # st)"
| "member_name _ _ = None"

fun close_array :: "frame list \<Rightarrow> (pstate \<times> frame list) option" where
  "close_array (FArr xs # st) = deliver (JArr (rev xs)) st"
| "close_array _ = None"

fun close_object :: "frame list \<Rightarrow> (pstate \<times> frame list) option" where
  "close_object (FObj ms # st) = deliver (JObj ms) st"
| "close_object _ = None"

fun after_comma :: "frame list \<Rightarrow> (pstate \<times> frame list) option" where
  "after_comma (FArr xs # st) = Some (SValue, FArr xs # st)"
| "after_comma (FObj ms # st) = Some (SKey, FObj ms # st)"
| "after_comma _ = None"

fun step :: "pstate \<Rightarrow> frame list \<Rightarrow> token \<Rightarrow> (pstate \<times> frame list) option" where
  "step SValue st t = start_value t st"
| "step SArrFirst st t = (if t = TRBracket then close_array st else start_value t st)"
| "step SObjFirst st t = (if t = TRBrace then close_object st else member_name t st)"
| "step SKey st t = member_name t st"
| "step SColon st t = (if t = TColon then Some (SValue, st) else None)"
| "step SNext st t =
     (if t = TComma then after_comma st
      else if t = TRBracket then close_array st
      else if t = TRBrace then close_object st
      else None)"
| "step (SDone v) st t = None"

fun run :: "pstate \<Rightarrow> frame list \<Rightarrow> token list \<Rightarrow> json option" where
  "run (SDone v) st [] = Some v"
| "run q st [] = None"
| "run q st (t # ts) =
     (case step q st t of
        None \<Rightarrow> None
      | Some (q', st') \<Rightarrow> run q' st' ts)"

definition JSON_parse :: "jsstring \<Rightarrow> js_error + json" where
  "JSON_parse text =
     (case lex text of
        None \<Rightarrow> Inl SyntaxError
      | Some ts \<Rightarrow>
          (case run SValue [] ts of
             None \<Rightarrow> Inl SyntaxError
           | Some v \<Rightarrow> Inr v))"

section \<open>safeJSONParse\<close>

text \<open>
  \<open>text.replace(/,\s*([}\]])/g, "$1")\<close>: at a comma, \<open>\s*\<close> takes all the white space
  that follows, and the match stands when a closing brace or bracket comes next; the
  match is replaced by that closing character and the scan goes on behind it. At every
  other place the character is kept.
\<close>

function fix_commas :: "jsstring \<Rightarrow> jsstring" where
  "fix_commas [] = []"
| "fix_commas (c # cs) =
     (if c = cu CHR '','' then
        (case dropWhile is_js_space cs of
           [] \<Rightarrow> c # fix_commas cs
         | d # ds \<Rightarrow>
             if d = cu CHR ''}'' \<or> d = cu CHR '']'' then d # fix_commas ds
             else c # fix_commas cs)
      else c # fix_commas cs)"
  by pat_completeness auto
termination
proof (relation "measure length", goal_cases)
  case (3 c cs d ds)
  have "length (dropWhile is_js_space cs) \<le> length cs"
    by (rule length_dropWhile_le)
  with 3 show ?case by simp
qed auto

definition safeJSONParse :: "jsstring \<Rightarrow> js_error + json" where
  "safeJSONParse text =
     (case JSON_parse text of
        Inr v \<Rightarrow> Inr v
      | Inl e \<Rightarrow> JSON_parse (fix_commas text))"

section \<open>The conversions to a number\<close>

subsection \<open>\<open>Number\<close> applied to a string\<close>

text \<open>
  The built-in conversion of a string to a number (StringToNumber of ECMA-262): white
  space around the literal is dropped, the empty string is 0, a string that is no
  numeric literal is \<open>NaN\<close>, and a literal is the double nearest to its value.
\<close>

definition radix_digits :: "nat \<Rightarrow> jsstring \<Rightarrow> jsnum" where
  "radix_digits b ds =
     (if ds \<noteq> [] \<and> list_all (\<lambda>d. case hex_val d of None \<Rightarrow> False | Some v \<Rightarrow> v < b) ds
      then to_double (of_nat (foldl (\<lambda>a d. b * a + (case hex_val d of None \<Rightarrow> 0 | Some v \<Rightarrow> v)) 0 ds))
      else NaN)"

text \<open>A literal with the prefix \<open>0x\<close>, \<open>0o\<close> or \<open>0b\<close> (either case); it takes no sign.\<close>

definition non_decimal :: "jsstring \<Rightarrow> jsnum option" where
  "non_decimal s =
     (case s of
        z # x # ds \<Rightarrow>
          if z \<noteq> cu CHR ''0'' then None
          else if x = cu CHR ''x'' \<or> x = cu CHR ''X'' then Some (radix_digits 16 ds)
          else if x = cu CHR ''o'' \<or> x = cu CHR ''O'' then Some (radix_digits 8 ds)
          else if x = cu CHR ''b'' \<or> x = cu CHR ''B'' then Some (radix_digits 2 ds)
          else None
      | _ \<Rightarrow> None)"

text \<open>
  An unsigned decimal literal: \<open>Infinity\<close>, or digits with an optional point and an
  optional exponent, with a digit before or behind the point. The whole string must be
  the literal.
\<close>

definition unsigned_decimal :: "jsstring \<Rightarrow> jsnum" where
  "unsigned_decimal u =
     (if u = js ''Infinity'' then PosInf
      else
        let ip = takeWhile is_digit u;
            r1 = dropWhile is_digit u;
            dot = (r1 \<noteq> [] \<and> hd r1 = cu CHR ''.'');
            fp = (if dot then takeWhile is_digit (tl r1) else []);
            r2 = (if dot then dropWhile is_digit (tl r1) else r1)
        in if ip = [] \<and> fp = [] then NaN
           else
             (case lex_exponent r2 of
                Some (e, []) \<Rightarrow>
                  to_double (scale10 (of_nat (digits_val ip) + of_nat (digits_val fp) / 10 ^ length fp) e)
              | _ \<Rightarrow> NaN))"

definition string_to_number :: "jsstring \<Rightarrow> jsnum" where
  "string_to_number s =
     (let t = trim s
      in if t = [] then Fin 0
         else
           (case non_decimal t of
              Some r \<Rightarrow> r
            | None \<Rightarrow>
                if hd t = cu CHR ''-'' then js_neg (unsigned_decimal (tl t))
                else if hd t = cu CHR ''+'' then unsigned_decimal (tl t)
                else unsigned_decimal t))"

subsection \<open>\<open>Number\<close> applied to a parsed value\<close>

text \<open>
  An array or object is first made a string. That raises a TypeError for an object with
  an own property \<open>toString\<close>, which after \<open>JSON.parse\<close> is never a function, and for
  an array that holds such an object.
\<close>

fun to_string_throws :: "json \<Rightarrow> bool" where
  "to_string_throws (JObj ms) = (js ''toString'' \<in> fst ` set ms)"
| "to_string_throws (JArr xs) = (\<exists>x \<in> set xs. to_string_throws x)"
| "to_string_throws _ = False"

text \<open>
  The number read from the string of a value, for a value whose string is made without
  an error: an array is its elements' strings joined by commas (\<open>null\<close> giving the empty
  string), so an array of two or more is no number; the string of a number reads back
  as that number; the string of an object is \<open>[object Object]\<close>.
\<close>

fun number_of_string_of :: "json \<Rightarrow> jsnum" where
  "number_of_string_of JNull = NaN"
| "number_of_string_of (JBool b) = NaN"
| "number_of_string_of (JNum x) = x"
| "number_of_string_of (JStr s) = string_to_number s"
| "number_of_string_of (JArr []) = Fin 0"
| "number_of_string_of (JArr [x]) = (if x = JNull then Fin 0 else number_of_string_of x)"
| "number_of_string_of (JArr (x # y # zs)) = NaN"
| "number_of_string_of (JObj ms) = NaN"

fun Number :: "json \<Rightarrow> js_error + jsnum" where
  "Number JNull = Inr (Fin 0)"
| "Number (JBool b) = Inr (Fin (if b then 1 else 0))"
| "Number (JNum x) = Inr x"
| "Number (JStr s) = Inr (string_to_number s)"
| "Number v = (if to_string_throws v then Inl TypeError else Inr (number_of_string_of v))"

section \<open>The aggregation of the handler\<close>

text \<open>
  Reading the property \<open>k\<close> of a value, for a name that no prototype defines (\<open>foods\<close>
  and \<open>calories\<close> are such names): \<open>None\<close> is \<open>undefined\<close>.
\<close>

fun get_prop :: "jsstring \<Rightarrow> json \<Rightarrow> js_error + json option" where
  "get_prop k JNull = Inl TypeError"
| "get_prop k (JObj ms) = Inr (map_of ms k)"
| "get_prop k _ = Inr None"

text \<open>The values that \<open>||\<close> replaces by its right operand.\<close>

fun falsy :: "json option \<Rightarrow> bool" where
  "falsy None = True"
| "falsy (Some JNull) = True"
| "falsy (Some (JBool b)) = (\<not> b)"
| "falsy (Some (JNum x)) = (x = Fin 0 \<or> x = NaN)"
| "falsy (Some (JStr s)) = (s = [])"
| "falsy (Some _) = False"

text \<open>\<open>v || 0\<close> for a property value \<open>v\<close> that has been read\<close>

fun or_zero :: "json option \<Rightarrow> json" where
  "or_zero None = JNum (Fin 0)"
| "or_zero (Some v) = (if falsy (Some v) then JNum (Fin 0) else v)"

text \<open>\<open>Number(f.calories || 0)\<close>\<close>

definition calories_of :: "json \<Rightarrow> js_error + jsnum" where
  "calories_of f =
     (case get_prop (js ''calories'') f of
        Inl e \<Rightarrow> Inl e
      | Inr c \<Rightarrow> Number (or_zero c))"

text \<open>\<open>parsed.foods.reduce((sum, f) => sum + Number(f.calories || 0), 0)\<close>\<close>

fun reduce_calories :: "jsnum \<Rightarrow> json list \<Rightarrow> js_error + jsnum" where
  "reduce_calories acc [] = Inr acc"
| "reduce_calories acc (f # fs) =
     (case calories_of f of
        Inl e \<Rightarrow> Inl e
      | Inr n \<Rightarrow> reduce_calories (js_add acc n) fs)"

text \<open>
  \<open>if (!Array.isArray(parsed.foods)) parsed.foods = [];\<close> and the value of
  \<open>parsed.foods\<close> behind it. Reading a property of \<open>null\<close> raises; the assignment to a
  property of a boolean, number or string stores nothing, so that \<open>parsed.foods\<close> stays
  \<open>undefined\<close> and the call of \<open>reduce\<close> on it raises.
\<close>

fun foods_of :: "json \<Rightarrow> js_error + json list" where
  "foods_of JNull = Inl TypeError"
| "foods_of (JObj ms) = (case map_of ms (js ''foods'') of Some (JArr xs) \<Rightarrow> Inr xs | _ \<Rightarrow> Inr [])"
| "foods_of (JArr xs) = Inr []"
| "foods_of _ = Inl TypeError"

text \<open>
  Lines 124 to 134 of the handler: the \<open>foods\<close> and the \<open>total_calories\<close> of the
  response. \<open>res.json\<close> writes a total that is \<open>NaN\<close> or infinite as \<open>null\<close>.
\<close>

definition aggregate :: "json \<Rightarrow> js_error + (json list \<times> jsnum)" where
  "aggregate parsed =
     (case foods_of parsed of
        Inl e \<Rightarrow> Inl e
      | Inr fs \<Rightarrow>
          (case reduce_calories (Fin 0) fs of
             Inl e \<Rightarrow> Inl e
           | Inr totalCalories \<Rightarrow> Inr (fs, Math_round totalCalories)))"

section \<open>The handler of \<open>POST /analyze-food\<close>\<close>

text \<open>
  What the request brings and what the model answers. \<open>req_file\<close> is the path under which
  the upload was stored (\<open>req.file\<close>), if there was one. The call of the model is
  rejected, or it gives a result whose \<open>response.text()\<close> raises, or one with a text.
\<close>

record request =
  req_file :: "string option"

datatype upstream = Rejected | NoText | Text jsstring

datatype body =
    Failure string
  | Analysis "json list" jsnum "string option"

record response =
  status :: nat
  body :: body

definition server_error :: response where
  "server_error = \<lparr>status = 500, body = Failure ''Failed to analyze image''\<rparr>"

text \<open>
  The handler, from the request, the model's answer and the files on disk, to the
  response and the files on disk behind it. An exception of extractJSON or safeJSONParse
  reaches the inner \<open>catch\<close>, which answers 200 with the empty result and a warning;
  every other exception reaches the outer \<open>catch\<close>, which answers 500.
\<close>

definition analyze_food :: "request \<Rightarrow> upstream \<Rightarrow> string set \<Rightarrow> response \<times> string set" where
  "analyze_food req up disk =
     (case req_file req of
        None \<Rightarrow> (\<lparr>status = 400, body = Failure ''Image is required''\<rparr>, disk)
      | Some path \<Rightarrow>
          if path \<notin> disk then (server_error, disk)  \<comment> \<open>\<open>readFileSync\<close> raises\<close>
          else
            (case up of
               Rejected \<Rightarrow> (server_error, disk)
             | NoText \<Rightarrow> (server_error, disk - {path})
             | Text rawText \<Rightarrow>
                 (let disk' = disk - {path}  \<comment> \<open>\<open>fs.unlinkSync(req.file.path)\<close>\<close>
                  in case (case extractJSON rawText of Inl e \<Rightarrow> Inl e | Inr jsonText \<Rightarrow> safeJSONParse jsonText) of
                       Inl err \<Rightarrow>
                         (\<lparr>status = 200, body = Analysis [] (Fin 0) (Some ''Invalid model response'')\<rparr>, disk')
                     | Inr parsed \<Rightarrow>
                         (case aggregate parsed of
                            Inl e \<Rightarrow> (server_error, disk')
                          | Inr (fs, n) \<Rightarrow> (\<lparr>status = 200, body = Analysis fs n None\<rparr>, disk')))))"

section \<open>The extraction in the words of the specification\<close>

text \<open>
  \<open>removed_all p s out\<close>: \<open>out\<close> is the text \<open>s\<close> with all occurrences of the marker
  \<open>p\<close> removed and everything around them left as it is. The occurrences, taken from
  the left, cut \<open>s\<close> into the segments before them and the rest behind the last one;
  the marker behind a segment is the first that occurs from the start of the segment
  on, and the rest holds none.
\<close>

definition removed_all :: "jsstring \<Rightarrow> jsstring \<Rightarrow> jsstring \<Rightarrow> bool" where
  "removed_all p s out \<longleftrightarrow>
     (\<exists>segs rest. s = concat (map (\<lambda>seg. seg @ p) segs) @ rest \<and>
        (\<forall>seg \<in> set segs. \<not> sublist p (seg @ butlast p)) \<and> \<not> sublist p rest \<and>
        out = concat segs @ rest)"

text \<open>\<open>trimmed s out\<close>: \<open>out\<close> is \<open>s\<close> without the white space at its two ends.\<close>

definition trimmed :: "jsstring \<Rightarrow> jsstring \<Rightarrow> bool" where
  "trimmed s out \<longleftrightarrow>
     (\<exists>l r. s = l @ out @ r \<and> (\<forall>c \<in> set l. is_js_space c) \<and> (\<forall>c \<in> set r. is_js_space c) \<and>
        (out = [] \<or> (\<not> is_js_space (hd out) \<and> \<not> is_js_space (last out))))"

text \<open>
  \<open>brace_span s r\<close>: \<open>r\<close> is the part of \<open>s\<close> from its first opening brace through
  its last closing brace.
\<close>

definition brace_span :: "jsstring \<Rightarrow> jsstring \<Rightarrow> bool" where
  "brace_span s r \<longleftrightarrow>
     (\<exists>pre mid post. s = pre @ r @ post \<and> r = cu CHR ''{'' # mid @ [cu CHR ''}''] \<and>
        cu CHR ''{'' \<notin> set pre \<and> cu CHR ''}'' \<notin> set post)"

section \<open>The repair in the words of the specification\<close>

text \<open>
  A comma stands immediately before a closing brace or bracket when only white space
  separates them.
\<close>

definition before_closer :: "jsstring \<Rightarrow> bool" where
  "before_closer s =
     (case dropWhile is_js_space s of
        [] \<Rightarrow> False
      | d # ds \<Rightarrow> d = cu CHR ''}'' \<or> d = cu CHR '']'')"

text \<open>
  The repair as the specification words it: every comma that stands immediately before
  a closing brace or bracket is removed, and nothing else.
\<close>

fun remove_trailing_commas :: "jsstring \<Rightarrow> jsstring" where
  "remove_trailing_commas [] = []"
| "remove_trailing_commas (c # cs) =
     (if c = cu CHR '','' \<and> before_closer cs then remove_trailing_commas cs
      else c # remove_trailing_commas cs)"

definition parse_as_specified :: "jsstring \<Rightarrow> js_error + json" where
  "parse_as_specified text =
     (case JSON_parse text of
        Inr v \<Rightarrow> Inr v
      | Inl e \<Rightarrow> JSON_parse (remove_trailing_commas text))"

text \<open>
  The repair with the white space: every such comma is removed together with the white
  space between it and the closing character. The flag says that the place is in the
  white space behind a removed comma.
\<close>

fun remove_trailing_commas_ws :: "bool \<Rightarrow> jsstring \<Rightarrow> jsstring" where
  "remove_trailing_commas_ws g [] = []"
| "remove_trailing_commas_ws g (c # cs) =
     (if c = cu CHR '','' \<and> before_closer cs then remove_trailing_commas_ws True cs
      else if g \<and> is_js_space c then remove_trailing_commas_ws True cs
      else c # remove_trailing_commas_ws False cs)"

section \<open>The aggregation in the words of the specification\<close>

text \<open>The \<open>calories\<close> member of an item, if the item is an object that has one.\<close>

definition calories_field :: "json \<Rightarrow> json option" where
  "calories_field f = (case f of JObj ms \<Rightarrow> map_of ms (js ''calories'') | _ \<Rightarrow> None)"

definition is_finite :: "jsnum \<Rightarrow> bool" where
  "is_finite n = (case n of Fin r \<Rightarrow> True | _ \<Rightarrow> False)"

text \<open>The sum of numbers as JavaScript adds them: from the left, starting at 0.\<close>

definition js_sum :: "jsnum list \<Rightarrow> jsnum" where
  "js_sum ns = foldl js_add (Fin 0) ns"

text \<open>
  The contribution of an item as the specification words it: a number counts as itself,
  a numeric string as the number it reads as, and everything else as 0.
\<close>

definition claimed_contribution :: "json \<Rightarrow> jsnum" where
  "claimed_contribution f =
     (case calories_field f of
        Some (JNum x) \<Rightarrow> x
      | Some (JStr s) \<Rightarrow> (if is_finite (string_to_number s) then string_to_number s else Fin 0)
      | _ \<Rightarrow> Fin 0)"

definition claimed_total :: "json list \<Rightarrow> jsnum" where
  "claimed_total fs = Math_round (js_sum (map claimed_contribution fs))"

text \<open>
  The items the amended statement speaks of: those whose \<open>calories\<close> is missing,
  \<open>null\<close>, a boolean, a finite number, or a string that reads as a finite number (the
  empty and the blank string read as 0). For them, the contribution is that of the
  specification, except that \<open>true\<close> counts as 1.
\<close>

definition plain_calories :: "json \<Rightarrow> bool" where
  "plain_calories f =
     (case calories_field f of
        None \<Rightarrow> True
      | Some JNull \<Rightarrow> True
      | Some (JBool b) \<Rightarrow> True
      | Some (JNum x) \<Rightarrow> is_finite x
      | Some (JStr s) \<Rightarrow> is_finite (string_to_number s)
      | Some _ \<Rightarrow> False)"

definition contribution :: "json \<Rightarrow> jsnum" where
  "contribution f =
     (case calories_field f of
        Some (JNum x) \<Rightarrow> x
      | Some (JStr s) \<Rightarrow> string_to_number s
      | Some (JBool b) \<Rightarrow> Fin (if b then 1 else 0)
      | _ \<Rightarrow> Fin 0)"

text \<open>
  Rounding to the nearest integer with ties away from zero, as the specification words
  the rounding of the total.
\<close>

definition round_half_away :: "rat \<Rightarrow> int" where
  "round_half_away x = (if 0 \<le> x then \<lfloor>x + 1 / 2\<rfloor> else - \<lfloor>- x + 1 / 2\<rfloor>)"

section \<open>The parser at work on an object\<close>

text \<open>
  The stack of a parse whose outermost open value is an object, and the states of the
  parser in which the text's value is, or is going to be, an object.
\<close>

fun bottom_is_object :: "frame list \<Rightarrow> bool" where
  "bottom_is_object [] = False"
| "bottom_is_object [FArr xs] = False"
| "bottom_is_object [f] = True"
| "bottom_is_object (f # g # st) = bottom_is_object (g # st)"

fun parsing_object :: "pstate \<Rightarrow> frame list \<Rightarrow> bool" where
  "parsing_object (SDone (JObj ms)) st = (st = [])"
| "parsing_object (SDone v) st = False"
| "parsing_object q st = bottom_is_object st"

section \<open>Properties of extractJSON\<close>

lemma brace_neq: "cu CHR ''{'' \<noteq> cu CHR ''}''"
  by (simp add: cu_def)

lemma greedy_to_close_None: "greedy_to_close cs = None \<longleftrightarrow> cu CHR ''}'' \<notin> set cs"
  by (induction cs) (auto split: option.splits)

lemma greedy_to_close_Some:
  "greedy_to_close cs = Some m \<Longrightarrow>
     \<exists>post. cs = m @ post \<and> cu CHR ''}'' \<notin> set post \<and> m \<noteq> [] \<and> last m = cu CHR ''}''"
proof (induction cs arbitrary: m)
  case Nil
  then show ?case by simp
next
  case (Cons c cs)
  show ?case
  proof (cases "greedy_to_close cs")
    case None
    with Cons.prems have "c = cu CHR ''}''" "m = [c]"
      by (auto split: if_splits)
    moreover from None have "cu CHR ''}'' \<notin> set cs"
      by (simp add: greedy_to_close_None)
    ultimately show ?thesis by simp
  next
    case (Some m')
    with Cons.prems have m: "m = c # m'" by simp
    from Cons.IH [OF Some] obtain post where
      "cs = m' @ post" "cu CHR ''}'' \<notin> set post" "m' \<noteq> []" "last m' = cu CHR ''}''"
      by blast
    with m show ?thesis by simp
  qed
qed

lemma match_object_Some:
  "match_object s = Some m \<Longrightarrow>
     \<exists>pre mid post. s = pre @ m @ post \<and> m = cu CHR ''{'' # mid @ [cu CHR ''}''] \<and>
        cu CHR ''{'' \<notin> set pre \<and> cu CHR ''}'' \<notin> set post"
proof (induction s arbitrary: m)
  case Nil
  then show ?case by simp
next
  case (Cons c cs)
  show ?case
  proof (cases "c = cu CHR ''{'' \<and> greedy_to_close cs \<noteq> None")
    case True
    then obtain m' where g: "greedy_to_close cs = Some m'" by blast
    with True Cons.prems have m: "m = c # m'" by simp
    from greedy_to_close_Some [OF g] obtain post where
      p: "cs = m' @ post" "cu CHR ''}'' \<notin> set post" "m' \<noteq> []" "last m' = cu CHR ''}''"
      by blast
    from p(3,4) have "m' = butlast m' @ [cu CHR ''}'']"
      by (metis append_butlast_last_id)
    with m p True have "c # cs = [] @ m @ post \<and> m = cu CHR ''{'' # butlast m' @ [cu CHR ''}''] \<and>
        cu CHR ''{'' \<notin> set [] \<and> cu CHR ''}'' \<notin> set post"
      by simp
    then show ?thesis by blast
  next
    case False
    with Cons.prems have r: "match_object cs = Some m"
      by (auto split: option.splits if_splits)
    from False have nb: "c = cu CHR ''{'' \<Longrightarrow> cu CHR ''}'' \<notin> set cs"
      by (simp add: greedy_to_close_None)
    from Cons.IH [OF r] obtain pre mid post where
      p: "cs = pre @ m @ post" "m = cu CHR ''{'' # mid @ [cu CHR ''}'']"
         "cu CHR ''{'' \<notin> set pre" "cu CHR ''}'' \<notin> set post"
      by blast
    from p(1,2) have "cu CHR ''}'' \<in> set cs" by simp
    with nb have "c \<noteq> cu CHR ''{''" by blast
    with p have "c # cs = (c # pre) @ m @ post \<and> m = cu CHR ''{'' # mid @ [cu CHR ''}''] \<and>
        cu CHR ''{'' \<notin> set (c # pre) \<and> cu CHR ''}'' \<notin> set post"
      by simp
    then show ?thesis by blast
  qed
qed

lemma match_object_None:
  "match_object s = None \<longleftrightarrow>
     \<not> (\<exists>pre mid post. s = pre @ cu CHR ''{'' # mid @ cu CHR ''}'' # post)"
proof (induction s)
  case Nil
  then show ?case by simp
next
  case (Cons c cs)
  show ?case
  proof (cases "c = cu CHR ''{''")
    case False
    have "(\<exists>pre mid post. c # cs = pre @ cu CHR ''{'' # mid @ cu CHR ''}'' # post) \<longleftrightarrow>
          (\<exists>pre mid post. cs = pre @ cu CHR ''{'' # mid @ cu CHR ''}'' # post)"
    proof
      assume "\<exists>pre mid post. c # cs = pre @ cu CHR ''{'' # mid @ cu CHR ''}'' # post"
      then obtain pre mid post where e: "c # cs = pre @ cu CHR ''{'' # mid @ cu CHR ''}'' # post"
        by blast
      with False obtain pre' where "pre = c # pre'" by (cases pre) auto
      with e show "\<exists>pre mid post. cs = pre @ cu CHR ''{'' # mid @ cu CHR ''}'' # post" by auto
    next
      assume "\<exists>pre mid post. cs = pre @ cu CHR ''{'' # mid @ cu CHR ''}'' # post"
      then obtain pre mid post where "cs = pre @ cu CHR ''{'' # mid @ cu CHR ''}'' # post" by blast
      then have "c # cs = (c # pre) @ cu CHR ''{'' # mid @ cu CHR ''}'' # post" by simp
      then show "\<exists>pre mid post. c # cs = pre @ cu CHR ''{'' # mid @ cu CHR ''}'' # post" by blast
    qed
    with Cons False show ?thesis by simp
  next
    case True
    show ?thesis
    proof (cases "cu CHR ''}'' \<in> set cs")
      case in_cs: True
      then obtain mid post where "cs = mid @ cu CHR ''}'' # post"
        by (auto simp: in_set_conv_decomp)
      with True have "c # cs = [] @ cu CHR ''{'' # mid @ cu CHR ''}'' # post" by simp
      then have "\<exists>pre mid post. c # cs = pre @ cu CHR ''{'' # mid @ cu CHR ''}'' # post" by blast
      moreover from in_cs True have "match_object (c # cs) \<noteq> None"
        by (auto simp: greedy_to_close_None split: option.splits)
      ultimately show ?thesis by simp
    next
      case notin: False
      then have g: "greedy_to_close cs = None" by (simp add: greedy_to_close_None)
      have "\<not> (\<exists>pre mid post. c # cs = pre @ cu CHR ''{'' # mid @ cu CHR ''}'' # post)"
      proof
        assume "\<exists>pre mid post. c # cs = pre @ cu CHR ''{'' # mid @ cu CHR ''}'' # post"
        then obtain pre mid post where e: "c # cs = pre @ cu CHR ''{'' # mid @ cu CHR ''}'' # post"
          by blast
        then have "cu CHR ''}'' \<in> set (c # cs)" by simp
        with True brace_neq notin show False by auto
      qed
      moreover have "\<not> (\<exists>pre mid post. cs = pre @ cu CHR ''{'' # mid @ cu CHR ''}'' # post)"
        using notin by auto
      ultimately show ?thesis using Cons True g by simp
    qed
  qed
qed

text \<open>
  C10: when extractJSON returns a string, that string is not empty, starts with an
  opening brace and ends with a closing brace.
\<close>

theorem extractJSON_braces:
  "extractJSON text = Inr r \<Longrightarrow> r \<noteq> [] \<and> hd r = cu CHR ''{'' \<and> last r = cu CHR ''}''"
proof -
  assume "extractJSON text = Inr r"
  then have "match_object (cleaned text) = Some r"
    by (simp add: extractJSON_def split: option.splits)
  from match_object_Some [OF this] show ?thesis by auto
qed

theorem extractJSON_braces_witness:
  "extractJSON (js ''Here: {\"foods\":[]} done'') = Inr (js ''{\"foods\":[]}'') \<and>
   js ''{\"foods\":[]}'' \<noteq> [] \<and> hd (js ''{\"foods\":[]}'') = cu CHR ''{'' \<and>
   last (js ''{\"foods\":[]}'') = cu CHR ''}''"
proof -
  have h: "extractJSON (js ''Here: {\"foods\":[]} done'') = Inr (js ''{\"foods\":[]}'')"
    by code_simp
  from extractJSON_braces [OF h] h show ?thesis by simp
qed

text \<open>
  C8: when the cleaned text holds no opening brace with a closing brace somewhere behind
  it, extractJSON fails with the error \<open>No JSON found\<close>. The witness is the text
  \<open>I cannot determine the contents.\<close>
\<close>

theorem extractJSON_no_json:
  assumes "\<not> (\<exists>pre mid post. cleaned text = pre @ cu CHR ''{'' # mid @ cu CHR ''}'' # post)"
  shows "extractJSON text = Inl (Error ''No JSON found'')"
proof -
  from assms have "match_object (cleaned text) = None"
    using match_object_None [of "cleaned text"] by blast
  then show ?thesis by (simp add: extractJSON_def)
qed

theorem extractJSON_no_json_witness:
  "\<not> (\<exists>pre mid post. cleaned (js ''I cannot determine the contents.'') =
        pre @ cu CHR ''{'' # mid @ cu CHR ''}'' # post) \<and>
   extractJSON (js ''I cannot determine the contents.'') = Inl (Error ''No JSON found'')"
proof -
  have "match_object (cleaned (js ''I cannot determine the contents.'')) = None"
    by code_simp
  then have h: "\<not> (\<exists>pre mid post. cleaned (js ''I cannot determine the contents.'') =
        pre @ cu CHR ''{'' # mid @ cu CHR ''}'' # post)"
    using match_object_None [of "cleaned (js ''I cannot determine the contents.'')"] by blast
  from extractJSON_no_json [OF h] h show ?thesis by simp
qed

subsection \<open>Fences\<close>

lemma replace_all_absent:
  "\<not> sublist p s \<Longrightarrow> replace_all p r s = s"
proof (induction p r s rule: replace_all.induct)
  case (1 p r)
  then show ?case by simp
next
  case (2 p r c cs)
  from "2.prems" have np: "\<not> prefix p (c # cs)" and ns: "\<not> sublist p cs"
    by (auto simp: sublist_Cons_right)
  with "2.IH"(2) show ?case by simp
qed

lemma prefix_replicate_takeWhile:
  "prefix (replicate n b) zs \<longleftrightarrow> n \<le> length (takeWhile (\<lambda>c. c = b) zs)"
proof (induction n arbitrary: zs)
  case 0
  then show ?case by simp
next
  case (Suc n)
  then show ?case by (cases zs) auto
qed

lemma replace_all_run:
  fixes b :: code_unit
  defines "p \<equiv> replicate 3 b"
  shows "\<not> sublist p (replace_all p [] s) \<and>
         length (takeWhile (\<lambda>c. c = b) (replace_all p [] s)) = length (takeWhile (\<lambda>c. c = b) s) mod 3"
proof (induction "length s" arbitrary: s rule: less_induct)
  case less
  show ?case
  proof (cases s)
    case Nil
    then show ?thesis by (simp add: p_def)
  next
    case (Cons c cs)
    have pne: "p \<noteq> []" by (simp add: p_def)
    show ?thesis
    proof (cases "prefix p (c # cs)")
      case True
      then obtain ys where ys: "c # cs = p @ ys" by (auto simp: prefix_def)
      then have d: "drop (length p) (c # cs) = ys" by simp
      have "length ys < length s" using ys Cons by (simp add: p_def)
      from less [OF this] have IH: "\<not> sublist p (replace_all p [] ys)"
        "length (takeWhile (\<lambda>c. c = b) (replace_all p [] ys)) = length (takeWhile (\<lambda>c. c = b) ys) mod 3"
        by auto
      have r: "replace_all p [] s = replace_all p [] ys"
        using True pne d Cons by simp
      have "takeWhile (\<lambda>c. c = b) (p @ ys) = p @ takeWhile (\<lambda>c. c = b) ys"
        by (simp add: p_def numeral_3_eq_3)
      then have "length (takeWhile (\<lambda>c. c = b) s) = 3 + length (takeWhile (\<lambda>c. c = b) ys)"
        using ys Cons by (simp add: p_def)
      with IH r show ?thesis by simp
    next
      case False
      have "length cs < length s" using Cons by simp
      from less [OF this] have IH: "\<not> sublist p (replace_all p [] cs)"
        "length (takeWhile (\<lambda>c. c = b) (replace_all p [] cs)) = length (takeWhile (\<lambda>c. c = b) cs) mod 3"
        by auto
      have r: "replace_all p [] s = c # replace_all p [] cs"
        using False Cons by simp
      from False have small: "length (takeWhile (\<lambda>c. c = b) (c # cs)) < 3"
        by (simp add: p_def prefix_replicate_takeWhile)
      have np: "\<not> prefix p (c # replace_all p [] cs)"
      proof
        assume "prefix p (c # replace_all p [] cs)"
        then have "3 \<le> length (takeWhile (\<lambda>c. c = b) (c # replace_all p [] cs))"
          by (simp add: p_def prefix_replicate_takeWhile)
        then have "c = b" and "2 \<le> length (takeWhile (\<lambda>c. c = b) (replace_all p [] cs))"
          by (auto split: if_splits)
        with IH(2) small show False by (auto split: if_splits)
      qed
      have "length (takeWhile (\<lambda>c. c = b) (c # replace_all p [] cs)) =
            length (takeWhile (\<lambda>c. c = b) (c # cs)) mod 3"
        using IH(2) small by (auto split: if_splits)
      with np IH(1) r Cons show ?thesis
        by (simp add: sublist_Cons_right)
    qed
  qed
qed

lemma sublist_trim: "sublist (trim s) s"
proof -
  have "suffix (dropWhile is_js_space s) s"
    by (rule suffix_dropWhile)
  moreover have "prefix (trim s) (dropWhile is_js_space s)"
  proof -
    have "suffix (dropWhile is_js_space (rev (dropWhile is_js_space s))) (rev (dropWhile is_js_space s))"
      by (rule suffix_dropWhile)
    then show ?thesis
      by (simp add: trim_def suffix_to_prefix)
  qed
  ultimately show ?thesis
    by (meson prefix_imp_sublist suffix_imp_sublist sublist_order.order.trans)
qed

lemma fence_def': "js ''```'' = replicate 3 (cu CHR 0x60)"
  by (simp add: js_def numeral_3_eq_3)

lemma cleaned_no_fence: "\<not> sublist (js ''```'') (cleaned text)"
proof
  assume "sublist (js ''```'') (cleaned text)"
  then have "sublist (js ''```'') (replace_all (js ''```'') [] (replace_all (js ''```json'') [] text))"
    unfolding cleaned_def using sublist_trim sublist_order.order.trans by blast
  with replace_all_run [of "cu CHR 0x60" "replace_all (js ''```json'') [] text"]
  show False by (simp add: fence_def')
qed

lemma trim_id:
  "s \<noteq> [] \<Longrightarrow> \<not> is_js_space (hd s) \<Longrightarrow> \<not> is_js_space (last s) \<Longrightarrow> trim s = s"
proof -
  assume a: "s \<noteq> []" "\<not> is_js_space (hd s)" "\<not> is_js_space (last s)"
  then have "dropWhile is_js_space s = s" by (cases s) auto
  moreover from a have "dropWhile is_js_space (rev s) = rev s"
    by (cases "rev s") (auto simp: last_rev [symmetric] simp del: last_rev)
  ultimately show ?thesis by (simp add: trim_def)
qed

lemma greedy_to_close_all: "greedy_to_close (xs @ [cu CHR ''}'']) = Some (xs @ [cu CHR ''}''])"
  by (induction xs) auto

lemma match_object_all:
  assumes "s \<noteq> []" "hd s = cu CHR ''{''" "last s = cu CHR ''}''"
  shows "match_object s = Some s"
proof -
  from assms obtain cs where s: "s = cu CHR ''{'' # cs" by (cases s) auto
  with assms(3) brace_neq have "cs \<noteq> []" by auto
  with s assms(3) have "cs = butlast cs @ [cu CHR ''}'']"
    by (metis append_butlast_last_id last_ConsR)
  then have "greedy_to_close cs = Some cs"
    using greedy_to_close_all [of "butlast cs"] by simp
  with s show ?thesis by simp
qed

lemma extractJSON_clean:
  assumes "\<not> sublist (js ''```'') text" "text \<noteq> []" "hd text = cu CHR ''{''" "last text = cu CHR ''}''"
  shows "extractJSON text = Inr text"
proof -
  have "prefix (js ''```'') (js ''```json'')" by (simp add: js_def)
  then have "sublist (js ''```'') (js ''```json'')" by (rule prefix_imp_sublist)
  with assms(1) have "\<not> sublist (js ''```json'') text"
    using sublist_order.order.trans by blast
  with assms(1) have "replace_all (js ''```'') [] (replace_all (js ''```json'') [] text) = text"
    by (simp add: replace_all_absent)
  moreover have "\<not> is_js_space (cu CHR ''{'')" "\<not> is_js_space (cu CHR ''}'')"
    by (simp_all add: is_js_space_def cu_def)
  ultimately have "cleaned text = text"
    using assms by (simp add: cleaned_def trim_id)
  with match_object_all [OF assms(2-4)] show ?thesis
    by (simp add: extractJSON_def)
qed

lemma trim_ends:
  assumes "trim s \<noteq> []"
  shows "\<not> is_js_space (hd (trim s)) \<and> \<not> is_js_space (last (trim s))"
proof -
  define d where "d = dropWhile is_js_space s"
  define e where "e = dropWhile is_js_space (rev d)"
  have t: "trim s = rev e" by (simp add: trim_def d_def e_def)
  with assms have ne: "e \<noteq> []" by simp
  then have 1: "\<not> is_js_space (hd e)" unfolding e_def by (rule hd_dropWhile)
  from ne have dne: "d \<noteq> []" by (auto simp: e_def)
  then have 2: "\<not> is_js_space (hd d)" unfolding d_def by (rule hd_dropWhile)
  have "suffix e (rev d)" unfolding e_def by (rule suffix_dropWhile)
  then obtain zs where "rev d = zs @ e" by (auto simp: suffix_def)
  with ne have "last e = last (rev d)" by simp
  with dne have "last e = hd d" by (simp add: last_rev)
  with 1 2 t ne show ?thesis by (simp add: hd_rev last_rev)
qed

subsection \<open>The cleaning and the match, in the words of the specification\<close>

lemma prefix_of_longer:
  "prefix p (xs @ ys) \<Longrightarrow> length p \<le> length xs \<Longrightarrow> prefix p xs"
  by (auto simp: prefix_append)

lemma replace_all_skip:
  assumes "p \<noteq> []" and "\<not> sublist p (seg @ butlast p)"
  shows "replace_all p [] (seg @ p @ s') = seg @ replace_all p [] s'"
  using assms(2)
proof (induction seg)
  case Nil
  from assms(1) obtain c cs where p: "p = c # cs" by (cases p) auto
  then have "replace_all p [] (p @ s') = replace_all p [] (drop (length p) (p @ s'))"
    by simp
  then show ?case by simp
next
  case (Cons c seg)
  from Cons.prems have np: "\<not> prefix p (c # seg @ butlast p)"
    and ns: "\<not> sublist p (seg @ butlast p)"
    by (auto simp: sublist_Cons_right)
  have "\<not> prefix p (c # seg @ p @ s')"
  proof
    assume "prefix p (c # seg @ p @ s')"
    moreover have "c # seg @ p @ s' = (c # seg @ butlast p) @ (last p # s')"
      using assms(1) by simp
    moreover have "length p \<le> length (c # seg @ butlast p)"
      by simp
    ultimately have "prefix p (c # seg @ butlast p)"
      using prefix_of_longer by metis
    with np show False ..
  qed
  with Cons.IH [OF ns] show ?case by simp
qed

lemma sublist_leftmost:
  assumes "p \<noteq> []"
  shows "sublist p s \<Longrightarrow> \<exists>seg s'. s = seg @ p @ s' \<and> \<not> sublist p (seg @ butlast p)"
proof (induction s)
  case Nil
  with assms show ?case by simp
next
  case (Cons c t)
  show ?case
  proof (cases "prefix p (c # t)")
    case True
    then obtain s' where "c # t = [] @ p @ s'" by (auto simp: prefix_def)
    moreover have "\<not> sublist p ([] @ butlast p)"
    proof
      assume "sublist p ([] @ butlast p)"
      then have "sublist p (butlast p)" by simp
      then have a: "length p \<le> length (butlast p)"
        by (rule sublist_length_le)
      from assms have "0 < length p" by simp
      then have "length (butlast p) < length p" by simp
      with a show False by linarith
    qed
    ultimately show ?thesis by blast
  next
    case False
    with Cons.prems have "sublist p t" by (simp add: sublist_Cons_right)
    from Cons.IH [OF this] obtain seg s' where t: "t = seg @ p @ s'"
      and n: "\<not> sublist p (seg @ butlast p)"
      by blast
    have "\<not> prefix p (c # seg @ butlast p)"
    proof
      assume a: "prefix p (c # seg @ butlast p)"
      have "c # t = (c # seg @ butlast p) @ (last p # s')"
        using t assms by simp
      then have "prefix (c # seg @ butlast p) (c # t)"
        by (metis prefixI)
      with a have "prefix p (c # t)" by (rule prefix_order.trans)
      with False show False ..
    qed
    with n have "\<not> sublist p ((c # seg) @ butlast p)"
      by (simp add: sublist_Cons_right)
    moreover from t have "c # t = (c # seg) @ p @ s'" by simp
    ultimately show ?thesis by blast
  qed
qed

lemma removed_all_unique:
  assumes "p \<noteq> []" and "removed_all p s out"
  shows "out = replace_all p [] s"
proof -
  from assms(2) obtain segs rest where s: "s = concat (map (\<lambda>seg. seg @ p) segs) @ rest"
    and l: "\<forall>seg \<in> set segs. \<not> sublist p (seg @ butlast p)" and r: "\<not> sublist p rest"
    and o: "out = concat segs @ rest"
    by (auto simp: removed_all_def)
  from l have "replace_all p [] (concat (map (\<lambda>seg. seg @ p) segs) @ rest) = concat segs @ rest"
  proof (induction segs)
    case Nil
    with r show ?case by (simp add: replace_all_absent)
  next
    case (Cons seg segs)
    then have "\<not> sublist p (seg @ butlast p)" by simp
    from replace_all_skip [OF assms(1) this, of "concat (map (\<lambda>seg. seg @ p) segs) @ rest"]
      Cons show ?case by simp
  qed
  with s o show ?thesis by simp
qed

lemma removed_all_replace_all:
  assumes "p \<noteq> []"
  shows "removed_all p s (replace_all p [] s)"
proof (induction "length s" arbitrary: s rule: less_induct)
  case less
  show ?case
  proof (cases "sublist p s")
    case False
    then have "s = concat (map (\<lambda>seg. seg @ p) []) @ s \<and>
        (\<forall>seg \<in> set []. \<not> sublist p (seg @ butlast p)) \<and> \<not> sublist p s \<and>
        replace_all p [] s = concat [] @ s"
      by (simp add: replace_all_absent)
    then show ?thesis unfolding removed_all_def by blast
  next
    case True
    from sublist_leftmost [OF assms True] obtain seg s' where s: "s = seg @ p @ s'"
      and n: "\<not> sublist p (seg @ butlast p)"
      by blast
    with assms have "length s' < length s" by simp
    from less [OF this] obtain segs rest where
      s': "s' = concat (map (\<lambda>seg. seg @ p) segs) @ rest"
      and l: "\<forall>seg \<in> set segs. \<not> sublist p (seg @ butlast p)" and r: "\<not> sublist p rest"
      and o: "replace_all p [] s' = concat segs @ rest"
      by (auto simp: removed_all_def)
    from s s' have "s = concat (map (\<lambda>seg. seg @ p) (seg # segs)) @ rest" by simp
    moreover from n l have "\<forall>x \<in> set (seg # segs). \<not> sublist p (x @ butlast p)" by simp
    moreover from replace_all_skip [OF assms n, of s'] s o
    have "replace_all p [] s = concat (seg # segs) @ rest" by simp
    ultimately show ?thesis using r unfolding removed_all_def by blast
  qed
qed

lemma removed_all_iff:
  "p \<noteq> [] \<Longrightarrow> removed_all p s out \<longleftrightarrow> out = replace_all p [] s"
  using removed_all_unique removed_all_replace_all by blast

lemma trimmed_trim: "trimmed s (trim s)"
proof -
  define d where "d = dropWhile is_js_space s"
  define e where "e = dropWhile is_js_space (rev d)"
  have t: "trim s = rev e" by (simp add: trim_def d_def e_def)
  have 1: "s = takeWhile is_js_space s @ d" by (simp add: d_def)
  have "rev d = takeWhile is_js_space (rev d) @ e" by (simp add: e_def)
  then have "rev (rev d) = rev (takeWhile is_js_space (rev d) @ e)" by simp
  then have 2: "d = rev e @ rev (takeWhile is_js_space (rev d))" by simp
  from 1 2 t have "s = takeWhile is_js_space s @ trim s @ rev (takeWhile is_js_space (rev d))"
    by simp
  moreover have "\<forall>c \<in> set (takeWhile is_js_space s). is_js_space c"
    by (auto dest: set_takeWhileD)
  moreover have "\<forall>c \<in> set (rev (takeWhile is_js_space (rev d))). is_js_space c"
    by (auto dest: set_takeWhileD)
  moreover have "trim s = [] \<or> (\<not> is_js_space (hd (trim s)) \<and> \<not> is_js_space (last (trim s)))"
    using trim_ends [of s] by blast
  ultimately show ?thesis unfolding trimmed_def by blast
qed

lemma trimmed_unique:
  assumes "trimmed s out"
  shows "out = trim s"
proof -
  from assms obtain l r where s: "s = l @ out @ r"
    and l: "\<forall>c \<in> set l. is_js_space c" and r: "\<forall>c \<in> set r. is_js_space c"
    and o: "out = [] \<or> (\<not> is_js_space (hd out) \<and> \<not> is_js_space (last out))"
    by (auto simp: trimmed_def)
  show ?thesis
  proof (cases "out = []")
    case True
    with s l r have "\<forall>c \<in> set s. is_js_space c" by auto
    then have "dropWhile is_js_space s = []" by simp
    with True show ?thesis by (simp add: trim_def del: dropWhile_eq_Nil_conv)
  next
    case False
    with o have h: "\<not> is_js_space (hd out)" and t: "\<not> is_js_space (last out)" by auto
    from l have "dropWhile is_js_space (l @ out @ r) = dropWhile is_js_space (out @ r)"
      by (simp add: dropWhile_append)
    also from False h have "\<dots> = out @ r" by (cases out) auto
    finally have d: "dropWhile is_js_space s = out @ r" using s by simp
    from r have "dropWhile is_js_space (rev r @ rev out) = dropWhile is_js_space (rev out)"
      by (simp add: dropWhile_append)
    also from False t have "\<dots> = rev out"
      by (cases "rev out") (auto simp: last_rev [symmetric] simp del: last_rev)
    finally show ?thesis using d by (simp add: trim_def)
  qed
qed

lemma trimmed_iff: "trimmed s out \<longleftrightarrow> out = trim s"
  using trimmed_unique trimmed_trim by blast

lemma match_object_skip:
  "cu CHR ''{'' \<notin> set pre \<Longrightarrow> match_object (pre @ xs) = match_object xs"
  by (induction pre) auto

lemma greedy_to_close_last:
  "cu CHR ''}'' \<notin> set post \<Longrightarrow>
     greedy_to_close (mid @ cu CHR ''}'' # post) = Some (mid @ [cu CHR ''}''])"
proof (induction mid)
  case Nil
  then have "greedy_to_close post = None" by (simp add: greedy_to_close_None)
  then show ?case by simp
next
  case (Cons c mid)
  then show ?case by simp
qed

lemma brace_span_iff: "brace_span s r \<longleftrightarrow> match_object s = Some r"
proof
  assume "brace_span s r"
  then obtain pre mid post where s: "s = pre @ r @ post"
    and r: "r = cu CHR ''{'' # mid @ [cu CHR ''}'']"
    and a: "cu CHR ''{'' \<notin> set pre" and b: "cu CHR ''}'' \<notin> set post"
    by (auto simp: brace_span_def)
  from s r have "s = pre @ (cu CHR ''{'' # mid @ cu CHR ''}'' # post)" by simp
  with match_object_skip [OF a] have "match_object s = match_object (cu CHR ''{'' # mid @ cu CHR ''}'' # post)"
    by simp
  with greedy_to_close_last [OF b, of mid] r show "match_object s = Some r" by simp
next
  assume "match_object s = Some r"
  from match_object_Some [OF this] show "brace_span s r"
    unfolding brace_span_def by blast
qed

text \<open>
  C3: the cleaned text is the input with all occurrences of the \<open>json\<close>-tagged
  fence removed, then all occurrences of the bare fence removed, then trimmed, and no
  other text is; it holds no fence any more. extractJSON returns a string exactly
  when the cleaned text has a part from its first opening brace through its last
  closing brace, and then returns that part. A text without a fence that starts with
  an opening brace and ends with a closing brace is returned as it is.
\<close>

theorem extractJSON_span:
  "(\<forall>c. c = cleaned text \<longleftrightarrow>
      (\<exists>a b. removed_all (js ''```json'') text a \<and> removed_all (js ''```'') a b \<and> trimmed b c)) \<and>
   (\<forall>r. extractJSON text = Inr r \<longleftrightarrow> brace_span (cleaned text) r) \<and>
   \<not> sublist (js ''```'') (cleaned text) \<and>
   (\<not> sublist (js ''```'') text \<and> text \<noteq> [] \<and> hd text = cu CHR ''{'' \<and>
      last text = cu CHR ''}'' \<longrightarrow> extractJSON text = Inr text)"
proof (intro conjI allI impI)
  fix c
  have j: "js ''```json'' \<noteq> []" and f: "js ''```'' \<noteq> []"
    by (simp_all add: js_def)
  show "c = cleaned text \<longleftrightarrow>
      (\<exists>a b. removed_all (js ''```json'') text a \<and> removed_all (js ''```'') a b \<and> trimmed b c)"
    by (auto simp: removed_all_iff [OF j] removed_all_iff [OF f] trimmed_iff cleaned_def)
next
  fix r
  show "extractJSON text = Inr r \<longleftrightarrow> brace_span (cleaned text) r"
    by (auto simp: brace_span_iff extractJSON_def split: option.splits)
next
  show "\<not> sublist (js ''```'') (cleaned text)" by (rule cleaned_no_fence)
next
  assume "\<not> sublist (js ''```'') text \<and> text \<noteq> [] \<and> hd text = cu CHR ''{'' \<and>
      last text = cu CHR ''}''"
  then show "extractJSON text = Inr text"
    by (simp add: extractJSON_clean)
qed

text \<open>
  The witness is the fenced block of the specification: the text
  \<open>{"foods":[],"total_calories":0}\<close> between a line with the tagged fence and a line
  with the bare fence. Its cleaning and its span are given in the words of the
  specification, and the theorem gives what the code returns.
\<close>

theorem extractJSON_span_witness:
  "removed_all (js ''```json'')
     (js ''```json'' @ 0x0A # js ''{\"foods\":[],\"total_calories\":0}'' @ 0x0A # js ''```'')
     (0x0A # js ''{\"foods\":[],\"total_calories\":0}'' @ 0x0A # js ''```'') \<and>
   removed_all (js ''```'')
     (0x0A # js ''{\"foods\":[],\"total_calories\":0}'' @ 0x0A # js ''```'')
     (0x0A # js ''{\"foods\":[],\"total_calories\":0}'' @ [0x0A]) \<and>
   trimmed (0x0A # js ''{\"foods\":[],\"total_calories\":0}'' @ [0x0A])
     (js ''{\"foods\":[],\"total_calories\":0}'') \<and>
   cleaned (js ''```json'' @ 0x0A # js ''{\"foods\":[],\"total_calories\":0}'' @ 0x0A # js ''```'') =
     js ''{\"foods\":[],\"total_calories\":0}'' \<and>
   brace_span (js ''{\"foods\":[],\"total_calories\":0}'') (js ''{\"foods\":[],\"total_calories\":0}'') \<and>
   extractJSON (js ''```json'' @ 0x0A # js ''{\"foods\":[],\"total_calories\":0}'' @ 0x0A # js ''```'') =
     Inr (js ''{\"foods\":[],\"total_calories\":0}'') \<and>
   \<not> sublist (js ''```'') (js ''{\"foods\":[],\"total_calories\":0}'') \<and>
   extractJSON (js ''{\"foods\":[],\"total_calories\":0}'') = Inr (js ''{\"foods\":[],\"total_calories\":0}'')"
proof -
  define J where "J = js ''{\"foods\":[],\"total_calories\":0}''"
  define p where "p = js ''```json''"
  define q where "q = js ''```''"
  define a where "a = 0x0A # J @ 0x0A # q"
  define b where "b = 0x0A # J @ [0x0A]"
  define F where "F = p @ a"
  have n1: "\<not> sublist p ([] @ butlast p)"
    unfolding p_def by code_simp
  have n2: "\<not> sublist p a"
    unfolding p_def a_def J_def q_def by code_simp
  have "F = concat (map (\<lambda>seg. seg @ p) [[]]) @ a \<and>
      (\<forall>seg \<in> set [[]]. \<not> sublist p (seg @ butlast p)) \<and> \<not> sublist p a \<and> a = concat [[]] @ a"
    using n1 n2 by (simp add: F_def)
  then have r1: "removed_all p F a"
    unfolding removed_all_def by blast
  have n3: "\<not> sublist q (b @ butlast q)"
    unfolding q_def b_def J_def by code_simp
  have "a = concat (map (\<lambda>seg. seg @ q) [b]) @ [] \<and>
      (\<forall>seg \<in> set [b]. \<not> sublist q (seg @ butlast q)) \<and> \<not> sublist q [] \<and> b = concat [b] @ []"
    using n3 by (simp add: a_def b_def q_def js_def)
  then have r2: "removed_all q a b"
    unfolding removed_all_def by blast
  have sp: "is_js_space 0x0A" by (simp add: is_js_space_def)
  have h2: "J \<noteq> []" "hd J = cu CHR ''{''" "last J = cu CHR ''}''"
    by (simp_all add: J_def js_def)
  have ends: "\<not> is_js_space (hd J)" "\<not> is_js_space (last J)"
    unfolding h2 by (simp_all add: cu_def is_js_space_def)
  have "b = [0x0A] @ J @ [0x0A] \<and> (\<forall>c \<in> set [0x0A]. is_js_space c) \<and>
      (\<forall>c \<in> set [0x0A]. is_js_space c) \<and> (J = [] \<or> (\<not> is_js_space (hd J) \<and> \<not> is_js_space (last J)))"
    using sp ends by (simp add: b_def)
  then have r3: "trimmed b J"
    unfolding trimmed_def by blast
  note t = extractJSON_span [of F, unfolded p_def [symmetric] q_def [symmetric]]
  from r1 r2 r3 have "\<exists>a b. removed_all p F a \<and> removed_all q a b \<and> trimmed b J" by blast
  then have c: "cleaned F = J"
    by (rule iffD2 [OF t [THEN conjunct1, rule_format, of J], symmetric])
  have "J = [] @ J @ [] \<and> J = cu CHR ''{'' # js ''\"foods\":[],\"total_calories\":0'' @ [cu CHR ''}''] \<and>
      cu CHR ''{'' \<notin> set [] \<and> cu CHR ''}'' \<notin> set []"
    by (simp add: J_def js_def)
  then have bs: "brace_span J J"
    unfolding brace_span_def by blast
  from t c bs have e: "extractJSON F = Inr J" by simp
  have h1: "\<not> sublist q J"
    unfolding q_def J_def by code_simp
  note t' = extractJSON_span [of J, unfolded q_def [symmetric]]
  from t' h1 h2 have e': "extractJSON J = Inr J"
    by blast
  from r1 r2 r3 c bs e h1 e'
  have "removed_all p F a \<and> removed_all q a b \<and> trimmed b J \<and> cleaned F = J \<and>
      brace_span J J \<and> extractJSON F = Inr J \<and> \<not> sublist q J \<and> extractJSON J = Inr J"
    by blast
  then show ?thesis
    unfolding F_def a_def b_def p_def q_def J_def .
qed

section \<open>Properties of safeJSONParse\<close>

lemma comma_no_space: "\<not> is_js_space (cu CHR '','')"
  by (simp add: is_js_space_def cu_def)

lemma closer_no_space: "\<not> is_js_space (cu CHR ''}'')" "\<not> is_js_space (cu CHR '']'')"
  by (simp_all add: is_js_space_def cu_def)

lemma closer_no_comma: "cu CHR ''}'' \<noteq> cu CHR '',''" "cu CHR '']'' \<noteq> cu CHR '',''"
  by (simp_all add: cu_def)

lemma remove_ws_gap:
  assumes "\<forall>w \<in> set ws. is_js_space w" "\<not> is_js_space d" "d \<noteq> cu CHR '',''"
  shows "remove_trailing_commas_ws True (ws @ d # ds) = d # remove_trailing_commas_ws False ds"
  using assms
proof (induction ws)
  case Nil
  then show ?case by simp
next
  case (Cons w ws)
  then have "is_js_space w" by simp
  with comma_no_space have "w \<noteq> cu CHR '',''" by auto
  with Cons show ?case by simp
qed

lemma fix_commas_refines: "fix_commas s = remove_trailing_commas_ws False s"
proof (induction s rule: fix_commas.induct)
  case 1
  then show ?case by simp
next
  case (2 c cs)
  show ?case
  proof (cases "c = cu CHR '','' \<and> before_closer cs")
    case True
    then obtain d ds where dd: "dropWhile is_js_space cs = d # ds"
      and cl: "d = cu CHR ''}'' \<or> d = cu CHR '']''"
      by (auto simp: before_closer_def split: list.splits)
    have cs: "cs = takeWhile is_js_space cs @ d # ds"
      using dd takeWhile_dropWhile_id [of is_js_space cs] by simp
    have sp: "\<forall>w \<in> set (takeWhile is_js_space cs). is_js_space w"
      by (auto dest: set_takeWhileD)
    from cl closer_no_space closer_no_comma have nd: "\<not> is_js_space d" "d \<noteq> cu CHR '',''"
      by auto
    have "remove_trailing_commas_ws True cs = d # remove_trailing_commas_ws False ds"
      using remove_ws_gap [OF sp nd, of ds] cs by simp
    moreover have "fix_commas ds = remove_trailing_commas_ws False ds"
      using "2.IH"(2) True dd cl by simp
    ultimately show ?thesis using True dd cl by simp
  next
    case False
    have "fix_commas (c # cs) = c # fix_commas cs \<and> fix_commas cs = remove_trailing_commas_ws False cs"
    proof (cases "c = cu CHR '',''")
      case c: True
      show ?thesis
      proof (cases "dropWhile is_js_space cs")
        case Nil
        with "2.IH"(1) c show ?thesis by (simp del: dropWhile_eq_Nil_conv)
      next
        case (Cons d ds)
        with False c have "\<not> (d = cu CHR ''}'' \<or> d = cu CHR '']'')"
          by (simp add: before_closer_def)
        with "2.IH"(3) c Cons show ?thesis by simp
      qed
    next
      case False
      with "2.IH"(4) show ?thesis by simp
    qed
    then have "fix_commas (c # cs) = c # remove_trailing_commas_ws False cs" by simp
    with False show ?thesis by auto
  qed
qed

text \<open>
  C2, as amended: safeJSONParse returns the value of the strict parse when that
  succeeds; otherwise it parses, once, the text from which every comma immediately
  before a closing brace or bracket has been removed together with the white space
  between the two, and the outcome of that second parse is the outcome, an error
  included. The text of the example parses to the value of the same text without its
  trailing commas.
\<close>

theorem safeJSONParse_repair:
  "safeJSONParse text =
     (case JSON_parse text of
        Inr v \<Rightarrow> Inr v
      | Inl e \<Rightarrow> JSON_parse (remove_trailing_commas_ws False text)) \<and>
   remove_trailing_commas (js ''{\"foods\": [{\"name\":\"apple\",\"calories\":95,},],\"total_calories\":95,}'') =
     js ''{\"foods\": [{\"name\":\"apple\",\"calories\":95}],\"total_calories\":95}'' \<and>
   safeJSONParse (js ''{\"foods\": [{\"name\":\"apple\",\"calories\":95,},],\"total_calories\":95,}'') =
     JSON_parse (js ''{\"foods\": [{\"name\":\"apple\",\"calories\":95}],\"total_calories\":95}'') \<and>
   JSON_parse (js ''{\"foods\": [{\"name\":\"apple\",\"calories\":95}],\"total_calories\":95}'') =
     Inr (JObj [(js ''foods'', JArr [JObj [(js ''name'', JStr (js ''apple'')), (js ''calories'', JNum (Fin 95))]]),
                (js ''total_calories'', JNum (Fin 95))])"
proof (intro conjI)
  show "safeJSONParse text =
     (case JSON_parse text of
        Inr v \<Rightarrow> Inr v
      | Inl e \<Rightarrow> JSON_parse (remove_trailing_commas_ws False text))"
    unfolding safeJSONParse_def fix_commas_refines by (rule refl)
next
  show "remove_trailing_commas (js ''{\"foods\": [{\"name\":\"apple\",\"calories\":95,},],\"total_calories\":95,}'') =
     js ''{\"foods\": [{\"name\":\"apple\",\"calories\":95}],\"total_calories\":95}''"
    by code_simp
next
  show "safeJSONParse (js ''{\"foods\": [{\"name\":\"apple\",\"calories\":95,},],\"total_calories\":95,}'') =
     JSON_parse (js ''{\"foods\": [{\"name\":\"apple\",\"calories\":95}],\"total_calories\":95}'')"
    by code_simp
next
  show "JSON_parse (js ''{\"foods\": [{\"name\":\"apple\",\"calories\":95}],\"total_calories\":95}'') =
     Inr (JObj [(js ''foods'', JArr [JObj [(js ''name'', JStr (js ''apple'')), (js ''calories'', JNum (Fin 95))]]),
                (js ''total_calories'', JNum (Fin 95))])"
    by code_simp
qed

text \<open>
  C2, as stated, fails: the repair also removes the white space between the comma and
  the closing character. In the text \<open>{"a":"x, ]",}\<close> the code makes the member
  \<open>"x]"\<close>, and removing the commas only would make it \<open>"x ]"\<close>.
\<close>

theorem safeJSONParse_repair_counterexample:
  "fix_commas (js ''{\"a\":\"x, ]\",}'') = js ''{\"a\":\"x]\"}'' \<and>
   remove_trailing_commas (js ''{\"a\":\"x, ]\",}'') = js ''{\"a\":\"x ]\"}'' \<and>
   safeJSONParse (js ''{\"a\":\"x, ]\",}'') = Inr (JObj [(js ''a'', JStr (js ''x]''))]) \<and>
   parse_as_specified (js ''{\"a\":\"x, ]\",}'') = Inr (JObj [(js ''a'', JStr (js ''x ]''))]) \<and>
   safeJSONParse (js ''{\"a\":\"x, ]\",}'') \<noteq> parse_as_specified (js ''{\"a\":\"x, ]\",}'')"
  by code_simp

text \<open>
  C9: the repair does not know where a string literal is. The text \<open>{"a":"x,]",}\<close>
  fails the strict parse; the repair removes the comma inside the string as well as
  the trailing one, and the repaired text parses to an object whose member is
  \<open>"x]"\<close>, where the string of the text was \<open>"x,]"\<close>.
\<close>

theorem safeJSONParse_textual:
  "JSON_parse (js ''{\"a\":\"x,]\",}'') = Inl SyntaxError \<and>
   fix_commas (js ''{\"a\":\"x,]\",}'') = js ''{\"a\":\"x]\"}'' \<and>
   safeJSONParse (js ''{\"a\":\"x,]\",}'') = Inr (JObj [(js ''a'', JStr (js ''x]''))]) \<and>
   JSON_parse (js ''{\"a\":\"x,]\"}'') = Inr (JObj [(js ''a'', JStr (js ''x,]''))])"
  by code_simp

section \<open>Properties of the handler\<close>

lemma floor_add_half: "\<lfloor>of_int n + (1::rat) / 2\<rfloor> = n"
  by linarith

lemma Math_round_zero: "Math_round (Fin 0) = Fin 0"
  using floor_add_half [of 0] by simp

lemma aggregate_no_foods: "aggregate (JObj []) = Inr ([], Fin 0)"
  by (simp add: aggregate_def Math_round_zero del: Math_round.simps)

text \<open>
  C4: when the request has its file, the model's call gives a text, and extractJSON or
  safeJSONParse fails on that text, the handler answers with status 200 and a body of
  no foods, total 0 and the warning \<open>Invalid model response\<close>, which is not empty.
\<close>

theorem analyze_food_degraded:
  assumes "req_file req = Some path" and "path \<in> disk"
    and "extractJSON rawText = Inl e \<or>
         (\<exists>jsonText. extractJSON rawText = Inr jsonText \<and> safeJSONParse jsonText = Inl e)"
  shows "fst (analyze_food req (Text rawText) disk) =
           \<lparr>status = 200, body = Analysis [] (Fin 0) (Some ''Invalid model response'')\<rparr> \<and>
         ''Invalid model response'' \<noteq> []"
  using assms by (auto simp: analyze_food_def Let_def)

theorem analyze_food_degraded_witness:
  "extractJSON (js ''Sorry, {this is not, JSON}'') = Inr (js ''{this is not, JSON}'') \<and>
   safeJSONParse (js ''{this is not, JSON}'') = Inl SyntaxError \<and>
   fst (analyze_food \<lparr>req_file = Some ''uploads/f1''\<rparr> (Text (js ''Sorry, {this is not, JSON}''))
          {''uploads/f1''}) =
     \<lparr>status = 200, body = Analysis [] (Fin 0) (Some ''Invalid model response'')\<rparr>"
proof -
  have h1: "extractJSON (js ''Sorry, {this is not, JSON}'') = Inr (js ''{this is not, JSON}'')"
    by code_simp
  have h2: "safeJSONParse (js ''{this is not, JSON}'') = Inl SyntaxError"
    by code_simp
  have h3: "req_file \<lparr>req_file = Some ''uploads/f1''\<rparr> = Some ''uploads/f1''"
    by simp
  have h4: "''uploads/f1'' \<in> {''uploads/f1''}"
    by simp
  from h1 h2 have h5: "extractJSON (js ''Sorry, {this is not, JSON}'') = Inl SyntaxError \<or>
         (\<exists>jsonText. extractJSON (js ''Sorry, {this is not, JSON}'') = Inr jsonText \<and>
            safeJSONParse jsonText = Inl SyntaxError)"
    by blast
  from analyze_food_degraded [OF h3 h4 h5] h1 h2 show ?thesis by blast
qed

text \<open>
  C6 does not hold of the code: when the call of the model is rejected, the handler
  answers 500 and the uploaded file stays on disk. When the call gives a text, the file
  is removed.
\<close>

theorem analyze_food_rejected_keeps_file:
  "analyze_food \<lparr>req_file = Some ''uploads/f1''\<rparr> Rejected {''uploads/f1''} =
     (\<lparr>status = 500, body = Failure ''Failed to analyze image''\<rparr>, {''uploads/f1''}) \<and>
   snd (analyze_food \<lparr>req_file = Some ''uploads/f1''\<rparr> (Text (js ''{}'')) {''uploads/f1''}) = {}"
proof -
  have "extractJSON (js ''{}'') = Inr (js ''{}'')" by code_simp
  moreover have "safeJSONParse (js ''{}'') = Inr (JObj [])" by code_simp
  moreover note aggregate_no_foods
  ultimately show ?thesis
    by (simp add: analyze_food_def server_error_def)
qed

text \<open>
  C5 does not hold of the code: an element of \<open>foods\<close> that is \<open>null\<close> makes the
  aggregation raise a TypeError, and the handler answers 500. A \<open>foods\<close> that is no
  array is replaced by the empty array.
\<close>

theorem aggregate_null_item_raises:
  "JSON_parse (js ''{\"foods\":[null]}'') = Inr (JObj [(js ''foods'', JArr [JNull])]) \<and>
   aggregate (JObj [(js ''foods'', JArr [JNull])]) = Inl TypeError \<and>
   fst (analyze_food \<lparr>req_file = Some ''uploads/f1''\<rparr> (Text (js ''{\"foods\":[null]}'')) {''uploads/f1''}) =
     \<lparr>status = 500, body = Failure ''Failed to analyze image''\<rparr> \<and>
   JSON_parse (js ''{\"foods\": \"none\"}'') = Inr (JObj [(js ''foods'', JStr (js ''none''))]) \<and>
   aggregate (JObj [(js ''foods'', JStr (js ''none''))]) = Inr ([], Fin 0)"
proof -
  have e: "extractJSON (js ''{\"foods\":[null]}'') = Inr (js ''{\"foods\":[null]}'')"
    by code_simp
  have p: "JSON_parse (js ''{\"foods\":[null]}'') = Inr (JObj [(js ''foods'', JArr [JNull])])"
    by code_simp
  then have s: "safeJSONParse (js ''{\"foods\":[null]}'') = Inr (JObj [(js ''foods'', JArr [JNull])])"
    by (simp add: safeJSONParse_def)
  have a: "aggregate (JObj [(js ''foods'', JArr [JNull])]) = Inl TypeError"
    by (simp add: aggregate_def calories_of_def)
  have n: "JSON_parse (js ''{\"foods\": \"none\"}'') = Inr (JObj [(js ''foods'', JStr (js ''none''))])"
    by code_simp
  have b: "aggregate (JObj [(js ''foods'', JStr (js ''none''))]) = Inr ([], Fin 0)"
    by (simp add: aggregate_def Math_round_zero del: Math_round.simps)
  from e s a have "fst (analyze_food \<lparr>req_file = Some ''uploads/f1''\<rparr> (Text (js ''{\"foods\":[null]}'')) {''uploads/f1''}) =
     \<lparr>status = 500, body = Failure ''Failed to analyze image''\<rparr>"
    by (simp add: analyze_food_def server_error_def)
  with p a n b show ?thesis by blast
qed

section \<open>Properties of the aggregation\<close>

text \<open>
  The rounding to a double at work: \<open>0.1\<close>, a tie above \<open>2 ^ 53\<close> in both directions, a
  negative number, the sum \<open>0.1 + 0.2\<close>, and a string whose value lies above all doubles.
\<close>

lemma to_double_examples:
  "to_double (1 / 10) = Fin (3602879701896397 / 36028797018963968)"
  "to_double 9007199254740993 = Fin 9007199254740992"
  "to_double 9007199254740995 = Fin 9007199254740996"
  "to_double (- (602 / 5)) = Fin (- (4236198399495373 / 35184372088832))"
  "js_add (Fin (3602879701896397 / 36028797018963968)) (Fin (3602879701896397 / 18014398509481984)) =
     Fin (1351079888211149 / 4503599627370496)"
  by code_simp+

lemma string_to_number_overflow: "string_to_number (js ''1e309'') = PosInf"
  by code_simp

lemma string_to_number_empty: "string_to_number [] = Fin 0"
  by (simp add: string_to_number_def trim_def)

lemma calories_of_plain:
  assumes "plain_calories f" and "calories_of f = Inr n"
  shows "n = contribution f"
proof (cases f)
  case JNull
  with assms(2) show ?thesis by (simp add: calories_of_def)
next
  case (JObj ms)
  show ?thesis
  proof (cases "map_of ms (js ''calories'')")
    case None
    with JObj assms(2) show ?thesis
      by (simp add: calories_of_def contribution_def calories_field_def)
  next
    case (Some v)
    with JObj assms show ?thesis
      by (cases v)
        (auto simp: calories_of_def contribution_def calories_field_def plain_calories_def
          is_finite_def string_to_number_empty split: jsnum.splits if_splits)
  qed
qed (use assms(2) in \<open>simp_all add: calories_of_def contribution_def calories_field_def\<close>)

lemma reduce_calories_plain:
  "\<forall>f \<in> set fs. plain_calories f \<Longrightarrow> reduce_calories acc fs = Inr t \<Longrightarrow>
     t = foldl js_add acc (map contribution fs)"
proof (induction fs arbitrary: acc)
  case Nil
  then show ?case by simp
next
  case (Cons f fs)
  from Cons.prems(2) obtain n where n: "calories_of f = Inr n"
    and r: "reduce_calories (js_add acc n) fs = Inr t"
    by (auto split: sum.splits)
  from Cons.prems(1) have "plain_calories f" by simp
  from calories_of_plain [OF this n] have "n = contribution f" .
  with r have "reduce_calories (js_add acc (contribution f)) fs = Inr t" by simp
  from Cons.IH [OF _ this] Cons.prems(1) show ?case by simp
qed

lemma aggregate_only_foods:
  "map_of ms (js ''foods'') = map_of ms' (js ''foods'') \<Longrightarrow> aggregate (JObj ms) = aggregate (JObj ms')"
  by (simp add: aggregate_def)

text \<open>
  C1, as amended: when the aggregation succeeds and the \<open>calories\<close> of every item is
  missing, \<open>null\<close>, a boolean, a finite number or a numeric string, the total is the
  rounded sum of the contributions, added as doubles from the left, where missing,
  \<open>null\<close> and \<open>false\<close> count as 0, \<open>true\<close> as 1 and a number or numeric string as its
  value. The result depends on the \<open>foods\<close> member of the payload only, so a
  \<open>total_calories\<close> of the model is never used. The payload of the example gives two
  foods and the total 70.
\<close>

theorem total_calories_recomputed:
  "(aggregate parsed = Inr (fs, t) \<and> (\<forall>f \<in> set fs. plain_calories f) \<longrightarrow>
      t = Math_round (js_sum (map contribution fs))) \<and>
   (map_of ms (js ''foods'') = map_of ms' (js ''foods'') \<longrightarrow>
      aggregate (JObj ms) = aggregate (JObj ms')) \<and>
   JSON_parse (js ''{\"foods\":[{\"name\":\"rice\"},{\"name\":\"egg\",\"calories\":70}]}'') =
     Inr (JObj [(js ''foods'',
            JArr [JObj [(js ''name'', JStr (js ''rice''))],
                  JObj [(js ''name'', JStr (js ''egg'')), (js ''calories'', JNum (Fin 70))]])]) \<and>
   aggregate (JObj [(js ''foods'',
            JArr [JObj [(js ''name'', JStr (js ''rice''))],
                  JObj [(js ''name'', JStr (js ''egg'')), (js ''calories'', JNum (Fin 70))]])]) =
     Inr ([JObj [(js ''name'', JStr (js ''rice''))],
           JObj [(js ''name'', JStr (js ''egg'')), (js ''calories'', JNum (Fin 70))]], Fin 70)"
proof (intro conjI impI)
  assume a: "aggregate parsed = Inr (fs, t) \<and> (\<forall>f \<in> set fs. plain_calories f)"
  then obtain s where f: "foods_of parsed = Inr fs"
    and r: "reduce_calories (Fin 0) fs = Inr s" and t: "t = Math_round s"
    by (auto simp: aggregate_def split: sum.splits)
  from a reduce_calories_plain [OF _ r] have "s = js_sum (map contribution fs)"
    by (simp add: js_sum_def)
  with t show "t = Math_round (js_sum (map contribution fs))"
    by simp
next
  assume "map_of ms (js ''foods'') = map_of ms' (js ''foods'')"
  then show "aggregate (JObj ms) = aggregate (JObj ms')"
    by (rule aggregate_only_foods)
next
  show "JSON_parse (js ''{\"foods\":[{\"name\":\"rice\"},{\"name\":\"egg\",\"calories\":70}]}'') =
     Inr (JObj [(js ''foods'',
            JArr [JObj [(js ''name'', JStr (js ''rice''))],
                  JObj [(js ''name'', JStr (js ''egg'')), (js ''calories'', JNum (Fin 70))]])])"
    by code_simp
next
  show "aggregate (JObj [(js ''foods'',
            JArr [JObj [(js ''name'', JStr (js ''rice''))],
                  JObj [(js ''name'', JStr (js ''egg'')), (js ''calories'', JNum (Fin 70))]])]) =
     Inr ([JObj [(js ''name'', JStr (js ''rice''))],
           JObj [(js ''name'', JStr (js ''egg'')), (js ''calories'', JNum (Fin 70))]], Fin 70)"
    by code_simp
qed

text \<open>
  The witness is the payload with the calories 16.4, 47.8 and 56.3, one of them given
  as a string, and with a \<open>total_calories\<close> of its own: the doubles add up to a
  number just below 120.5, and the total is 120.
\<close>

theorem total_calories_recomputed_witness:
  "JSON_parse (js ''{\"foods\":[{\"calories\":16.4},{\"calories\":\"47.8\"},{\"calories\":56.3}],\"total_calories\":999}'') =
     Inr (JObj [(js ''foods'', JArr [JObj [(js ''calories'', JNum (Fin (2308094809027379 / 140737488355328)))],
        JObj [(js ''calories'', JStr (js ''47.8''))],
        JObj [(js ''calories'', JNum (Fin (3961760297202483 / 70368744177664)))]]),
      (js ''total_calories'', JNum (Fin 999))]) \<and>
   aggregate (JObj [(js ''foods'', JArr [JObj [(js ''calories'', JNum (Fin (2308094809027379 / 140737488355328)))],
        JObj [(js ''calories'', JStr (js ''47.8''))],
        JObj [(js ''calories'', JNum (Fin (3961760297202483 / 70368744177664)))]]),
      (js ''total_calories'', JNum (Fin 999))]) =
     Inr ([JObj [(js ''calories'', JNum (Fin (2308094809027379 / 140737488355328)))],
        JObj [(js ''calories'', JStr (js ''47.8''))],
        JObj [(js ''calories'', JNum (Fin (3961760297202483 / 70368744177664)))]], Fin 120) \<and>
   plain_calories (JObj [(js ''calories'', JNum (Fin (2308094809027379 / 140737488355328)))]) \<and>
   plain_calories (JObj [(js ''calories'', JStr (js ''47.8''))]) \<and>
   plain_calories (JObj [(js ''calories'', JNum (Fin (3961760297202483 / 70368744177664)))]) \<and>
   js_sum (map contribution [JObj [(js ''calories'', JNum (Fin (2308094809027379 / 140737488355328)))],
        JObj [(js ''calories'', JStr (js ''47.8''))],
        JObj [(js ''calories'', JNum (Fin (3961760297202483 / 70368744177664)))]]) =
     Fin (8479433673408511 / 70368744177664) \<and>
   Fin 120 = Math_round (js_sum (map contribution [JObj [(js ''calories'', JNum (Fin (2308094809027379 / 140737488355328)))],
        JObj [(js ''calories'', JStr (js ''47.8''))],
        JObj [(js ''calories'', JNum (Fin (3961760297202483 / 70368744177664)))]])) \<and>
   aggregate (JObj [(js ''foods'', JArr [JObj [(js ''calories'', JNum (Fin (2308094809027379 / 140737488355328)))],
        JObj [(js ''calories'', JStr (js ''47.8''))],
        JObj [(js ''calories'', JNum (Fin (3961760297202483 / 70368744177664)))]]),
      (js ''total_calories'', JNum (Fin 999))]) =
   aggregate (JObj [(js ''foods'', JArr [JObj [(js ''calories'', JNum (Fin (2308094809027379 / 140737488355328)))],
        JObj [(js ''calories'', JStr (js ''47.8''))],
        JObj [(js ''calories'', JNum (Fin (3961760297202483 / 70368744177664)))]])])"
proof -
  let ?fs = "[JObj [(js ''calories'', JNum (Fin (2308094809027379 / 140737488355328)))],
        JObj [(js ''calories'', JStr (js ''47.8''))],
        JObj [(js ''calories'', JNum (Fin (3961760297202483 / 70368744177664)))]]"
  let ?ms = "[(js ''foods'', JArr ?fs), (js ''total_calories'', JNum (Fin 999))]"
  let ?ms' = "[(js ''foods'', JArr ?fs)]"
  have j: "JSON_parse (js ''{\"foods\":[{\"calories\":16.4},{\"calories\":\"47.8\"},{\"calories\":56.3}],\"total_calories\":999}'') =
     Inr (JObj ?ms)"
    by code_simp
  have a: "aggregate (JObj ?ms) = Inr (?fs, Fin 120)"
    by code_simp
  have p: "plain_calories (JObj [(js ''calories'', JNum (Fin (2308094809027379 / 140737488355328)))])"
    "plain_calories (JObj [(js ''calories'', JStr (js ''47.8''))])"
    "plain_calories (JObj [(js ''calories'', JNum (Fin (3961760297202483 / 70368744177664)))])"
    by code_simp+
  then have all: "\<forall>f \<in> set ?fs. plain_calories f"
    by simp
  have s: "js_sum (map contribution ?fs) = Fin (8479433673408511 / 70368744177664)"
    by code_simp
  have m: "map_of ?ms (js ''foods'') = map_of ?ms' (js ''foods'')"
    by simp
  note t = total_calories_recomputed [of "JObj ?ms" ?fs "Fin 120" ?ms ?ms']
  from t a all have "Fin 120 = Math_round (js_sum (map contribution ?fs))"
    by blast
  moreover from t m have "aggregate (JObj ?ms) = aggregate (JObj ?ms')"
    by blast
  ultimately show ?thesis using j a p s by blast
qed

text \<open>
  C1, as stated, fails: a \<open>calories\<close> that is \<open>true\<close> counts as 1, and one that is a
  string which is no number makes the total \<open>NaN\<close>, where the statement has 0 for both.
\<close>

theorem total_calories_counterexample:
  "aggregate (JObj [(js ''foods'', JArr [JObj [(js ''calories'', JBool True)]])]) =
     Inr ([JObj [(js ''calories'', JBool True)]], Fin 1) \<and>
   claimed_total [JObj [(js ''calories'', JBool True)]] = Fin 0 \<and>
   JSON_parse (js ''{\"foods\":[{\"calories\":\"abc\"}]}'') =
     Inr (JObj [(js ''foods'', JArr [JObj [(js ''calories'', JStr (js ''abc''))]])]) \<and>
   aggregate (JObj [(js ''foods'', JArr [JObj [(js ''calories'', JStr (js ''abc''))]])]) =
     Inr ([JObj [(js ''calories'', JStr (js ''abc''))]], NaN) \<and>
   claimed_total [JObj [(js ''calories'', JStr (js ''abc''))]] = Fin 0"
  by code_simp

text \<open>
  C7, as amended: on the success path, when the contributions add up to a finite
  number, the total is the integer nearest to that sum, and of two equally near
  integers the one towards plus infinity; for a sum that is not negative this is
  rounding with ties away from zero. A sum of 120.4 (the double nearest to it) gives
  120 and a sum of 120.5 gives 121.
\<close>

theorem total_calories_rounding:
  assumes "aggregate parsed = Inr (fs, t)" and "reduce_calories (Fin 0) fs = Inr (Fin s)"
  shows "(\<exists>n. t = Fin (of_int n) \<and> of_int n - 1 / 2 \<le> s \<and> s < of_int n + 1 / 2) \<and>
         (0 \<le> s \<longrightarrow> t = Fin (of_int (round_half_away s))) \<and>
         (Fin s = to_double (602 / 5) \<longrightarrow> t = Fin 120) \<and>
         (Fin s = to_double (241 / 2) \<longrightarrow> t = Fin 121)"
proof -
  from assms have t: "t = Fin (of_int \<lfloor>s + 1 / 2\<rfloor>)"
    by (auto simp: aggregate_def split: sum.splits)
  have "of_int \<lfloor>s + 1 / 2\<rfloor> - 1 / 2 \<le> s \<and> s < of_int \<lfloor>s + 1 / 2\<rfloor> + 1 / 2"
    by linarith
  with t have 1: "\<exists>n. t = Fin (of_int n) \<and> of_int n - 1 / 2 \<le> s \<and> s < of_int n + 1 / 2"
    by blast
  from t have 2: "0 \<le> s \<longrightarrow> t = Fin (of_int (round_half_away s))"
    by (simp add: round_half_away_def)
  have d1: "to_double (602 / 5) = Fin (4236198399495373 / 35184372088832)" by code_simp
  have f1: "\<lfloor>(4236198399495373::rat) / 35184372088832 + 1 / 2\<rfloor> = 120" by code_simp
  have 3: "Fin s = to_double (602 / 5) \<longrightarrow> t = Fin 120"
  proof
    assume "Fin s = to_double (602 / 5)"
    with d1 have e: "s = 4236198399495373 / 35184372088832" by simp
    have "\<lfloor>s + 1 / 2\<rfloor> = 120" unfolding e by (rule f1)
    with t show "t = Fin 120" by simp
  qed
  have d2: "to_double (241 / 2) = Fin (241 / 2)" by code_simp
  have f2: "\<lfloor>(241::rat) / 2 + 1 / 2\<rfloor> = 121" by code_simp
  have 4: "Fin s = to_double (241 / 2) \<longrightarrow> t = Fin 121"
  proof
    assume "Fin s = to_double (241 / 2)"
    with d2 have e: "s = 241 / 2" by simp
    have "\<lfloor>s + 1 / 2\<rfloor> = 121" unfolding e by (rule f2)
    with t show "t = Fin 121" by simp
  qed
  from 1 2 3 4 show ?thesis by blast
qed

theorem total_calories_rounding_witness:
  "JSON_parse (js ''{\"foods\":[{\"calories\":100},{\"calories\":20.5}]}'') =
     Inr (JObj [(js ''foods'', JArr [JObj [(js ''calories'', JNum (Fin 100))],
       JObj [(js ''calories'', JNum (Fin (41 / 2)))]])]) \<and>
   aggregate (JObj [(js ''foods'', JArr [JObj [(js ''calories'', JNum (Fin 100))],
       JObj [(js ''calories'', JNum (Fin (41 / 2)))]])]) =
     Inr ([JObj [(js ''calories'', JNum (Fin 100))], JObj [(js ''calories'', JNum (Fin (41 / 2)))]], Fin 121) \<and>
   reduce_calories (Fin 0) [JObj [(js ''calories'', JNum (Fin 100))], JObj [(js ''calories'', JNum (Fin (41 / 2)))]] =
     Inr (Fin (241 / 2)) \<and>
   (0::rat) \<le> 241 / 2 \<and>
   Fin 121 = Fin (of_int (round_half_away (241 / 2))) \<and>
   (\<exists>n. Fin 121 = Fin (of_int n) \<and> of_int n - 1 / 2 \<le> (241 / 2 :: rat) \<and> (241 / 2 :: rat) < of_int n + 1 / 2) \<and>
   JSON_parse (js ''{\"foods\":[{\"calories\":100},{\"calories\":20.4}]}'') =
     Inr (JObj [(js ''foods'', JArr [JObj [(js ''calories'', JNum (Fin 100))],
       JObj [(js ''calories'', JNum (Fin (2871044762448691 / 140737488355328)))]])]) \<and>
   aggregate (JObj [(js ''foods'', JArr [JObj [(js ''calories'', JNum (Fin 100))],
       JObj [(js ''calories'', JNum (Fin (2871044762448691 / 140737488355328)))]])]) =
     Inr ([JObj [(js ''calories'', JNum (Fin 100))],
           JObj [(js ''calories'', JNum (Fin (2871044762448691 / 140737488355328)))]], Fin 120)"
proof -
  let ?fs = "[JObj [(js ''calories'', JNum (Fin 100))], JObj [(js ''calories'', JNum (Fin (41 / 2)))]]"
  have j: "JSON_parse (js ''{\"foods\":[{\"calories\":100},{\"calories\":20.5}]}'') =
     Inr (JObj [(js ''foods'', JArr ?fs)])"
    by code_simp
  have a: "aggregate (JObj [(js ''foods'', JArr ?fs)]) = Inr (?fs, Fin 121)"
    by code_simp
  have r: "reduce_calories (Fin 0) ?fs = Inr (Fin (241 / 2))"
    by code_simp
  have z: "(0::rat) \<le> 241 / 2" by simp
  let ?gs = "[JObj [(js ''calories'', JNum (Fin 100))],
           JObj [(js ''calories'', JNum (Fin (2871044762448691 / 140737488355328)))]]"
  have j': "JSON_parse (js ''{\"foods\":[{\"calories\":100},{\"calories\":20.4}]}'') =
     Inr (JObj [(js ''foods'', JArr ?gs)])"
    by code_simp
  have r': "reduce_calories (Fin 0) ?gs = Inr (Fin (4236198399495373 / 35184372088832))"
    by code_simp
  have d: "to_double (602 / 5) = Fin (4236198399495373 / 35184372088832)"
    by code_simp
  obtain t where a': "aggregate (JObj [(js ''foods'', JArr ?gs)]) = Inr (?gs, t)"
    using r' by (simp add: aggregate_def)
  from total_calories_rounding [OF a' r'] d [symmetric] have "t = Fin 120" by blast
  with a' have a'': "aggregate (JObj [(js ''foods'', JArr ?gs)]) = Inr (?gs, Fin 120)" by simp
  from total_calories_rounding [OF a r] z j a r j' a'' show ?thesis by blast
qed

text \<open>
  C7, as stated, fails for a negative tie: the contributions of
  \<open>{"foods":[{"calories":-120.5}]}\<close> sum to -120.5, the code's total is -120, and rounding
  with ties away from zero gives -121. It fails as well where the sum is no finite
  number: for \<open>{"foods":[{"calories":"abc"}]}\<close> the sum and the total are \<open>NaN\<close>.
\<close>

theorem total_calories_rounding_counterexample:
  "JSON_parse (js ''{\"foods\":[{\"calories\":-120.5}]}'') =
     Inr (JObj [(js ''foods'', JArr [JObj [(js ''calories'', JNum (Fin (- (241 / 2))))]])]) \<and>
   reduce_calories (Fin 0) [JObj [(js ''calories'', JNum (Fin (- (241 / 2))))]] = Inr (Fin (- (241 / 2))) \<and>
   aggregate (JObj [(js ''foods'', JArr [JObj [(js ''calories'', JNum (Fin (- (241 / 2))))]])]) =
     Inr ([JObj [(js ''calories'', JNum (Fin (- (241 / 2))))]], Fin (- 120)) \<and>
   round_half_away (- (241 / 2)) = - 121 \<and>
   reduce_calories (Fin 0) [JObj [(js ''calories'', JStr (js ''abc''))]] = Inr NaN \<and>
   aggregate (JObj [(js ''foods'', JArr [JObj [(js ''calories'', JStr (js ''abc''))]])]) =
     Inr ([JObj [(js ''calories'', JStr (js ''abc''))]], NaN)"
  by code_simp

section \<open>Further properties of the handler\<close>

lemma calories_of_raises:
  "calories_of f = Inl e \<longleftrightarrow>
     e = TypeError \<and> (f = JNull \<or> to_string_throws (or_zero (calories_field f)))"
proof (cases f)
  case (JObj ms)
  show ?thesis
  proof (cases "map_of ms (js ''calories'')")
    case None
    with JObj show ?thesis by (simp add: calories_of_def calories_field_def)
  next
    case (Some v)
    with JObj show ?thesis
      by (cases v) (auto simp: calories_of_def calories_field_def)
  qed
qed (auto simp: calories_of_def calories_field_def)

lemma reduce_calories_raises:
  "(\<exists>e. reduce_calories acc fs = Inl e) \<longleftrightarrow>
     (\<exists>f \<in> set fs. f = JNull \<or> to_string_throws (or_zero (calories_field f)))"
proof (induction fs arbitrary: acc)
  case Nil
  then show ?case by simp
next
  case (Cons f fs)
  show ?case
  proof (cases "calories_of f")
    case (Inl e)
    then show ?thesis using calories_of_raises [of f e] by auto
  next
    case (Inr n)
    then have "\<not> (f = JNull \<or> to_string_throws (or_zero (calories_field f)))"
      using calories_of_raises [of f TypeError] by auto
    with Inr Cons.IH [of "js_add acc n"] show ?thesis by auto
  qed
qed

lemma reduce_calories_error: "reduce_calories acc fs = Inl e \<Longrightarrow> e = TypeError"
proof (induction fs arbitrary: acc)
  case Nil
  then show ?case by simp
next
  case (Cons f fs)
  then show ?case
    using calories_of_raises [of f e] by (auto split: sum.splits)
qed

subsection \<open>A text that starts with a brace parses to an object\<close>

lemma bottom_is_object_Cons:
  "st \<noteq> [] \<Longrightarrow> bottom_is_object (f # st) = bottom_is_object st"
  by (cases st) auto

lemma deliver_object:
  "bottom_is_object st \<Longrightarrow> deliver v st = Some (q', st') \<Longrightarrow> parsing_object q' st'"
proof (cases st)
  case Nil
  assume "bottom_is_object st" with Nil show ?thesis by simp
next
  case (Cons f st'')
  assume b: "bottom_is_object st" and d: "deliver v st = Some (q', st')"
  show ?thesis
  proof (cases "st'' = []")
    case True
    with b d Cons show ?thesis by (cases f) auto
  next
    case False
    with b d Cons show ?thesis by (cases f) (auto simp: bottom_is_object_Cons)
  qed
qed

lemma deliver_object_top:
  "deliver (JObj ms) [] = Some (q', st') \<Longrightarrow> parsing_object q' st'"
  by auto

lemma start_value_object:
  "bottom_is_object st \<Longrightarrow> start_value t st = Some (q', st') \<Longrightarrow> parsing_object q' st'"
proof -
  assume b: "bottom_is_object st" and s: "start_value t st = Some (q', st')"
  from b have ne: "st \<noteq> []" by auto
  show ?thesis
  proof (cases t)
    case TLBracket
    with s b ne show ?thesis by (auto simp: bottom_is_object_Cons)
  next
    case TLBrace
    with s b ne show ?thesis by (auto simp: bottom_is_object_Cons)
  qed (use s b in \<open>auto dest: deliver_object\<close>)
qed

lemma member_name_object:
  "bottom_is_object st \<Longrightarrow> member_name t st = Some (q', st') \<Longrightarrow> parsing_object q' st'"
proof (induction t st rule: member_name.induct)
  case (1 k ms st)
  then show ?case by (cases "st = []") (auto simp: bottom_is_object_Cons)
qed auto

lemma close_array_object:
  "bottom_is_object st \<Longrightarrow> close_array st = Some (q', st') \<Longrightarrow> parsing_object q' st'"
proof (induction st rule: close_array.induct)
  case (1 xs st)
  then have "st \<noteq> []" by auto
  with 1 show ?case by (auto simp: bottom_is_object_Cons dest: deliver_object)
qed auto

lemma close_object_object:
  "bottom_is_object st \<Longrightarrow> close_object st = Some (q', st') \<Longrightarrow> parsing_object q' st'"
proof (induction st rule: close_object.induct)
  case (1 ms st)
  show ?case
  proof (cases "st = []")
    case True
    with 1 show ?thesis by auto
  next
    case False
    with 1 show ?thesis by (auto simp: bottom_is_object_Cons dest: deliver_object)
  qed
qed auto

lemma after_comma_object:
  "bottom_is_object st \<Longrightarrow> after_comma st = Some (q', st') \<Longrightarrow> parsing_object q' st'"
  by (induction st rule: after_comma.induct) auto

lemma step_object:
  "parsing_object q st \<Longrightarrow> step q st t = Some (q', st') \<Longrightarrow> parsing_object q' st'"
  by (cases q)
    (auto split: if_splits
      dest: start_value_object member_name_object close_array_object close_object_object
        after_comma_object)

lemma run_object:
  "parsing_object q st \<Longrightarrow> run q st ts = Some v \<Longrightarrow> \<exists>ms. v = JObj ms"
proof (induction ts arbitrary: q st)
  case Nil
  then show ?case
    by (cases q) (auto elim: parsing_object.elims)
next
  case (Cons t ts)
  from Cons.prems(2) obtain q' st' where s: "step q st t = Some (q', st')"
    and r: "run q' st' ts = Some v"
    by (auto split: option.splits)
  from step_object [OF Cons.prems(1) s] have "parsing_object q' st'" .
  from Cons.IH [OF this r] show ?case .
qed

lemma JSON_parse_brace:
  assumes "JSON_parse (cu CHR ''{'' # cs) = Inr v"
  shows "\<exists>ms. v = JObj ms"
proof -
  have nws: "\<not> is_json_ws (cu CHR ''{'')" by (simp add: is_json_ws_def cu_def)
  from assms obtain ts where l: "lex (cu CHR ''{'' # cs) = Some ts"
    and r: "run SValue [] ts = Some v"
    by (auto simp: JSON_parse_def split: option.splits)
  from l nws obtain ts' where "ts = TLBrace # ts'"
    by (auto simp: cons_token_def)
  with r have "run SObjFirst [FObj []] ts' = Some v" by simp
  moreover have "parsing_object SObjFirst [FObj []]" by simp
  ultimately show ?thesis by (rule run_object [rotated])
qed

lemma fix_commas_brace: "fix_commas (cu CHR ''{'' # cs) = cu CHR ''{'' # fix_commas cs"
proof -
  have "cu CHR ''{'' \<noteq> cu CHR '',''" by (simp add: cu_def)
  then show ?thesis by simp
qed

lemma safeJSONParse_brace:
  assumes "safeJSONParse (cu CHR ''{'' # cs) = Inr v"
  shows "\<exists>ms. v = JObj ms"
proof (cases "JSON_parse (cu CHR ''{'' # cs)")
  case (Inr w)
  with assms have "JSON_parse (cu CHR ''{'' # cs) = Inr v" by (simp add: safeJSONParse_def)
  then show ?thesis by (rule JSON_parse_brace)
next
  case (Inl e)
  with assms have "JSON_parse (cu CHR ''{'' # fix_commas cs) = Inr v"
    by (simp add: safeJSONParse_def fix_commas_brace del: fix_commas.simps)
  then show ?thesis by (rule JSON_parse_brace)
qed

text \<open>
  In the handler, the value that safeJSONParse returns for the text that
  extractJSON returned is always an object.
\<close>

theorem parsed_is_object:
  assumes "extractJSON rawText = Inr jsonText" and "safeJSONParse jsonText = Inr parsed"
  shows "\<exists>ms. parsed = JObj ms"
proof -
  from assms(1) have "match_object (cleaned rawText) = Some jsonText"
    by (simp add: extractJSON_def split: option.splits)
  from match_object_Some [OF this] obtain mid where
    "jsonText = cu CHR ''{'' # mid @ [cu CHR ''}'']"
    by blast
  with assms(2) show ?thesis using safeJSONParse_brace by blast
qed

theorem parsed_is_object_witness:
  "extractJSON (js ''```json {\"foods\":[],} ```'') = Inr (js ''{\"foods\":[],}'') \<and>
   safeJSONParse (js ''{\"foods\":[],}'') = Inr (JObj [(js ''foods'', JArr [])]) \<and>
   (\<exists>ms. JObj [(js ''foods'', JArr [])] = JObj ms)"
proof -
  have e: "extractJSON (js ''```json {\"foods\":[],} ```'') = Inr (js ''{\"foods\":[],}'')"
    by code_simp
  have p: "safeJSONParse (js ''{\"foods\":[],}'') = Inr (JObj [(js ''foods'', JArr [])])"
    by code_simp
  from parsed_is_object [OF e p] e p show ?thesis by blast
qed

text \<open>
  The aggregation of an object raises nothing but a TypeError, and it raises
  exactly when an item of \<open>foods\<close> is \<open>null\<close> or has a \<open>calories\<close> that cannot be made
  a primitive value.
\<close>

theorem aggregate_raises_iff:
  "(aggregate (JObj ms) = Inl e \<longrightarrow> e = TypeError) \<and>
   ((\<exists>e. aggregate (JObj ms) = Inl e) \<longleftrightarrow>
      (\<exists>f \<in> set (case map_of ms (js ''foods'') of Some (JArr xs) \<Rightarrow> xs | _ \<Rightarrow> []).
         f = JNull \<or> to_string_throws (or_zero (calories_field f))))"
proof -
  define fs where "fs = (case map_of ms (js ''foods'') of Some (JArr xs) \<Rightarrow> xs | _ \<Rightarrow> [])"
  have f: "foods_of (JObj ms) = Inr fs"
    by (simp add: fs_def split: option.splits json.splits)
  have a: "aggregate (JObj ms) = Inl e \<longleftrightarrow> reduce_calories (Fin 0) fs = Inl e" for e
    unfolding aggregate_def f by (auto split: sum.splits)
  have 1: "aggregate (JObj ms) = Inl e \<longrightarrow> e = TypeError"
    using a reduce_calories_error by blast
  have 2: "(\<exists>e. aggregate (JObj ms) = Inl e) \<longleftrightarrow>
      (\<exists>f \<in> set fs. f = JNull \<or> to_string_throws (or_zero (calories_field f)))"
    using a reduce_calories_raises [of "Fin 0" fs] by simp
  from 1 2 show ?thesis unfolding fs_def by blast
qed

theorem aggregate_raises_iff_witness:
  "aggregate (JObj [(js ''foods'', JArr [JObj [(js ''calories'', JObj [(js ''toString'', JNum (Fin 1))])]])]) =
     Inl TypeError \<and>
   to_string_throws (or_zero (calories_field (JObj [(js ''calories'', JObj [(js ''toString'', JNum (Fin 1))])])))"
proof -
  let ?f = "JObj [(js ''calories'', JObj [(js ''toString'', JNum (Fin 1))])]"
  let ?ms = "[(js ''foods'', JArr [?f])]"
  have t: "to_string_throws (or_zero (calories_field ?f))"
    by code_simp
  have m: "map_of ?ms (js ''foods'') = Some (JArr [?f])"
    by simp
  from t m have "\<exists>f \<in> set (case map_of ?ms (js ''foods'') of Some (JArr xs) \<Rightarrow> xs | _ \<Rightarrow> []).
         f = JNull \<or> to_string_throws (or_zero (calories_field f))"
    by simp
  with aggregate_raises_iff [of ?ms] obtain e where e: "aggregate (JObj ?ms) = Inl e"
    by blast
  with aggregate_raises_iff [of ?ms e] have "e = TypeError" by blast
  with e t show ?thesis by blast
qed

text \<open>
  When the request has its file and the call of the model is not rejected, the
  handler removes that file and no other, whatever it answers.
\<close>

theorem analyze_food_removes_file:
  assumes "req_file req = Some path" and "path \<in> disk" and "up \<noteq> Rejected"
  shows "snd (analyze_food req up disk) = disk - {path}"
  using assms
  by (cases up) (auto simp: analyze_food_def Let_def split: sum.splits)

theorem analyze_food_removes_file_witness:
  "req_file \<lparr>req_file = Some ''uploads/f1''\<rparr> = Some ''uploads/f1'' \<and>
   ''uploads/f1'' \<in> {''uploads/f1'', ''uploads/f2''} \<and> NoText \<noteq> Rejected \<and>
   snd (analyze_food \<lparr>req_file = Some ''uploads/f1''\<rparr> NoText {''uploads/f1'', ''uploads/f2''}) =
     {''uploads/f1'', ''uploads/f2''} - {''uploads/f1''}"
proof -
  have h1: "req_file \<lparr>req_file = Some ''uploads/f1''\<rparr> = Some ''uploads/f1''" by simp
  have h2: "''uploads/f1'' \<in> {''uploads/f1'', ''uploads/f2''}" by simp
  have h3: "NoText \<noteq> Rejected" by simp
  from analyze_food_removes_file [OF h1 h2 h3] h1 h2 h3 show ?thesis by blast
qed

end
